theory Spec2Isabelle
  imports Main "HOL-Library.Word" "HOL-Library.Sublist" "HOL-Library.AList"
begin

unbundle bit_operations_syntax

section \<open>WebFS: a shallow embedding of webfs.c\<close>

text \<open>
  The development follows \<^verbatim>\<open>src/WebFS/webfs.c\<close>.  C strings are byte lists
  (\<^typ>\<open>string\<close>); where the C code reads a buffer as a NUL-terminated string the
  model cuts the byte list at its first NUL (\<open>cstr\<close>).  Fixed-size buffers written
  with \<^verbatim>\<open>snprintf\<close> truncate in the model as they do in C.
\<close>

subsection \<open>Constants and <ctype.h>\<close>

definition BUFSIZE :: nat where
  "BUFSIZE = 8192"

text \<open>\<^verbatim>\<open>PATH_MAX\<close> comes from <limits.h>; on the target platform (Darwin) it is 1024.\<close>

definition PATH_MAX :: nat where
  "PATH_MAX = 1024"

definition cstr :: "string \<Rightarrow> string" where
  "cstr s = takeWhile (\<lambda>c. c \<noteq> CHR 0x00) s"

definition isspace :: "char \<Rightarrow> bool" where
  "isspace c = (c \<in> set [CHR '' '', CHR 0x09, CHR 0x0A, CHR 0x0B, CHR 0x0C, CHR 0x0D])"

definition isxdigit :: "char \<Rightarrow> bool" where
  "isxdigit c = (let n = (of_char c :: nat) in
     (48 \<le> n \<and> n \<le> 57) \<or> (65 \<le> n \<and> n \<le> 70) \<or> (97 \<le> n \<and> n \<le> 102))"

definition hexval :: "char \<Rightarrow> nat" where
  "hexval c = (let n = (of_char c :: nat) in
     if 48 \<le> n \<and> n \<le> 57 then n - 48
     else if 65 \<le> n \<and> n \<le> 70 then n - 55
     else n - 87)"

definition tolower :: "char \<Rightarrow> char" where
  "tolower c = (let n = (of_char c :: nat) in
     if 65 \<le> n \<and> n \<le> 90 then char_of (n + 32) else c)"

subsection \<open><string.h>\<close>

text \<open>\<^verbatim>\<open>strchr\<close> and \<^verbatim>\<open>strrchr\<close> as the index of the match.\<close>

fun strchr :: "string \<Rightarrow> char \<Rightarrow> nat option" where
  "strchr [] c = None"
| "strchr (x # xs) c = (if x = c then Some 0 else map_option Suc (strchr xs c))"

fun strrchr :: "string \<Rightarrow> char \<Rightarrow> nat option" where
  "strrchr [] c = None"
| "strrchr (x # xs) c =
     (case strrchr xs c of
        Some i \<Rightarrow> Some (Suc i)
      | None \<Rightarrow> if x = c then Some 0 else None)"

text \<open>\<^verbatim>\<open>strstr\<close> as the index of the first match.\<close>

fun strstr :: "string \<Rightarrow> string \<Rightarrow> nat option" where
  "strstr [] needle = (if needle = [] then Some 0 else None)"
| "strstr (x # xs) needle =
     (if prefix needle (x # xs) then Some 0 else map_option Suc (strstr xs needle))"

definition strcasecmp_eq :: "string \<Rightarrow> string \<Rightarrow> bool" where
  "strcasecmp_eq a b = (map tolower a = map tolower b)"

definition strncmp_eq :: "string \<Rightarrow> string \<Rightarrow> nat \<Rightarrow> bool" where
  "strncmp_eq a b n = (take n a = take n b)"

definition strncasecmp_eq :: "string \<Rightarrow> string \<Rightarrow> nat \<Rightarrow> bool" where
  "strncasecmp_eq a b n = (map tolower (take n a) = map tolower (take n b))"

text \<open>
  The tokens \<^verbatim>\<open>strtok_r\<close> yields over its successive calls: the maximal non-empty
  runs of bytes other than the delimiter.
\<close>

fun toks :: "char \<Rightarrow> string \<Rightarrow> string \<Rightarrow> string list" where
  "toks d cur [] = (if cur = [] then [] else [cur])"
| "toks d cur (c # cs) =
     (if c = d then (if cur = [] then toks d [] cs else cur # toks d [] cs)
      else toks d (cur @ [c]) cs)"

definition strtok :: "string \<Rightarrow> char \<Rightarrow> string list" where
  "strtok s d = toks d [] s"

subsection \<open>url_decode and join_path\<close>

fun url_decode :: "string \<Rightarrow> string" where
  "url_decode (c # a # b # cs) =
     (if c = CHR ''%'' \<and> isxdigit a \<and> isxdigit b
      then char_of (hexval a * 16 + hexval b) # url_decode cs
      else if c = CHR ''+'' then CHR '' '' # url_decode (a # b # cs)
      else c # url_decode (a # b # cs))"
| "url_decode (c # cs) = (if c = CHR ''+'' then CHR '' '' else c) # url_decode cs"
| "url_decode [] = []"

text \<open>
  The loop of \<^verbatim>\<open>join_path\<close> over the tokens of \<^verbatim>\<open>tmp\<close>; \<open>outbuf\<close> is the
  accumulator, a buffer of \<open>PATH_MAX\<close> bytes.  The request path comes from the
  1023-byte \<^verbatim>\<open>uri\<close> field, so \<^verbatim>\<open>decoded\<close>, which \<^verbatim>\<open>url_decode\<close> fills without
  a bound, is never overrun and is not cut in the model.
\<close>

fun collapse :: "string list \<Rightarrow> string \<Rightarrow> string" where
  "collapse [] outbuf = outbuf"
| "collapse (token # rest) outbuf =
     collapse rest
       (if token = ''..'' then
          (case strrchr outbuf CHR ''/'' of Some i \<Rightarrow> take i outbuf | None \<Rightarrow> outbuf)
        else if token \<noteq> ''.'' \<and> token \<noteq> [] then
          (if outbuf = [] then take (PATH_MAX - 1) token
           else take (PATH_MAX - 1) (outbuf @ ''/'' @ token))
        else outbuf)"

definition join_path :: "string \<Rightarrow> string \<Rightarrow> string" where
  "join_path root reqpath =
     (let decoded = takeWhile (\<lambda>c. c \<noteq> CHR ''?'') (cstr (url_decode reqpath));
          p = (case decoded of c # cs \<Rightarrow> if c = CHR ''/'' then cs else decoded | [] \<Rightarrow> decoded);
          tmp = take (PATH_MAX - 1) ((if root \<noteq> [] then root else ''/'') @ ''/'' @ p);
          outbuf = collapse (strtok tmp CHR ''/'') []
      in if outbuf = [] then ''/''
         else if (case root of c # _ \<Rightarrow> c = CHR ''/'' | [] \<Rightarrow> False)
              then (case outbuf of
                      c # _ \<Rightarrow> if c = CHR ''/'' then outbuf
                               else take (PATH_MAX - 1) (''/'' @ outbuf)
                    | [] \<Rightarrow> ''/'')
              else outbuf)"

subsection \<open>printf conversions\<close>

text \<open>\<^verbatim>\<open>%d\<close>, \<^verbatim>\<open>%zu\<close> and \<^verbatim>\<open>%lld\<close> on a non-negative number.\<close>

function decimal :: "nat \<Rightarrow> string" where
  "decimal n = (if n < 10 then [''0123456789'' ! n]
                else decimal (n div 10) @ [''0123456789'' ! (n mod 10)])"
  by pat_completeness auto
termination
  by (relation "measure (\<lambda>n. n)") auto

declare decimal.simps [simp del]

definition CRLF :: string where
  "CRLF = [CHR 0x0D, CHR 0x0A]"

subsection \<open>Base64 for Basic Auth\<close>

definition b64val :: "char \<Rightarrow> int" where
  "b64val c = (let n = (of_char c :: int) in
     if 65 \<le> n \<and> n \<le> 90 then n - 65
     else if 97 \<le> n \<and> n \<le> 122 then n - 97 + 26
     else if 48 \<le> n \<and> n \<le> 57 then n - 48 + 52
     else if c = CHR ''+'' then 62
     else if c = CHR ''/'' then 63
     else - 1)"

text \<open>
  The loop of \<^verbatim>\<open>b64dec_simple\<close>: \<open>accum\<close> is a C \<^verbatim>\<open>int\<close> that is never masked, so
  it is a 32-bit word here and the shift wraps; \<open>k\<close> is the output index \<^verbatim>\<open>o\<close>.
  The result is the bytes stored in \<^verbatim>\<open>out\<close> before the terminating NUL.
\<close>

fun b64dec_loop :: "nat \<Rightarrow> string \<Rightarrow> 32 word \<Rightarrow> nat \<Rightarrow> nat \<Rightarrow> string" where
  "b64dec_loop outlen [] accum bits k = []"
| "b64dec_loop outlen (c # cs) accum bits k =
     (if \<not> k < outlen - 1 then []
      else if b64val c < 0 then b64dec_loop outlen cs accum bits k
      else let accum' = push_bit 6 accum OR word_of_int (b64val c) in
        if bits + 6 \<ge> 8
        then char_of (unat (signed_drop_bit (bits + 6 - 8) accum' AND 0xFF))
               # b64dec_loop outlen cs accum' (bits + 6 - 8) (k + 1)
        else b64dec_loop outlen cs accum' (bits + 6) k)"

definition b64dec_simple :: "string \<Rightarrow> nat \<Rightarrow> string" where
  "b64dec_simple inp outlen = b64dec_loop outlen inp 0 0 0"

subsection \<open>Sending\<close>

text \<open>
  What a handler hands to \<^verbatim>\<open>send_all\<close>: the header block written by
  \<^verbatim>\<open>send_headers\<close> and the bytes sent after it.  The socket is taken to accept
  everything; the status texts and content types passed by the callers are short
  literals, so the 1024-byte and 128-byte buffers of \<^verbatim>\<open>send_headers\<close> never truncate.
\<close>

record response =
  resp_head :: string
  resp_body :: string

definition send_headers :: "nat \<Rightarrow> string \<Rightarrow> string option \<Rightarrow> nat \<Rightarrow> string option \<Rightarrow> string" where
  "send_headers code status ctype content_len extra =
     ''HTTP/1.1 '' @ decimal code @ '' '' @ status @ CRLF
     @ ''Server: WebFS/0.1'' @ CRLF
     @ ''Connection: close'' @ CRLF
     @ ''Content-Length: '' @ decimal content_len @ CRLF
     @ (case ctype of Some t \<Rightarrow> ''Content-Type: '' @ t @ CRLF | None \<Rightarrow> [])
     @ (case extra of Some e \<Rightarrow> e | None \<Rightarrow> [])
     @ CRLF"

definition reply :: "nat \<Rightarrow> string \<Rightarrow> string option \<Rightarrow> string option \<Rightarrow> string \<Rightarrow> response" where
  "reply code status ctype extra text =
     \<lparr>resp_head = send_headers code status ctype (length text) extra, resp_body = text\<rparr>"

text \<open>\<^verbatim>\<open>my_strcasestr\<close>: the haystack from the first match on.\<close>

fun my_strcasestr :: "string \<Rightarrow> string \<Rightarrow> string option" where
  "my_strcasestr [] needle = None"
| "my_strcasestr (h # hs) needle =
     (if length needle \<le> length (h # hs)
         \<and> map tolower (take (length needle) (h # hs)) = map tolower needle
      then Some (h # hs) else my_strcasestr hs needle)"

subsection \<open>Configuration\<close>

text \<open>The globals of the program, and the embedded page, which is a parameter here.\<close>

record config =
  g_port :: nat
  g_root :: string
  g_user :: string
  g_pass :: string
  g_auth_enabled :: bool
  INDEX_HTML :: string

subsection \<open>Request parsing\<close>

text \<open>\<^verbatim>\<open>struct http_req\<close>; its field \<^verbatim>\<open>method\<close> is \<open>meth\<close> here.\<close>

record http_req =
  meth :: string
  uri :: string
  proto :: string
  headers :: string
  body :: "string option"

definition body_len :: "http_req \<Rightarrow> nat" where
  "body_len req = (case body req of None \<Rightarrow> 0 | Some b \<Rightarrow> length b)"

text \<open>One \<^verbatim>\<open>%Ns\<close> conversion: the field read and the input left.\<close>

definition scan_s :: "nat \<Rightarrow> string \<Rightarrow> (string \<times> string) option" where
  "scan_s width s =
     (let s' = dropWhile isspace s;
          tok = take width (takeWhile (\<lambda>c. \<not> isspace c) s')
      in if tok = [] then None else Some (tok, drop (length tok) s'))"

text \<open>\<^verbatim>\<open>sscanf(buf, "%15s %1023s %15s", ...)\<close>; \<open>None\<close> when it does not return 3.\<close>

definition sscanf3 :: "string \<Rightarrow> (string \<times> string \<times> string) option" where
  "sscanf3 s =
     (case scan_s 15 s of None \<Rightarrow> None
      | Some (m, r1) \<Rightarrow>
        (case scan_s 1023 r1 of None \<Rightarrow> None
         | Some (u, r2) \<Rightarrow>
           (case scan_s 15 r2 of None \<Rightarrow> None
            | Some (p, r3) \<Rightarrow> Some (m, u, p))))"

definition isdigit :: "char \<Rightarrow> bool" where
  "isdigit c = (let n = (of_char c :: nat) in 48 \<le> n \<and> n \<le> 57)"

text \<open>\<^verbatim>\<open>atoi\<close>; a value outside \<^verbatim>\<open>int\<close> is undefined in C and is not cut here.\<close>

definition atoi :: "string \<Rightarrow> int" where
  "atoi s =
     (let s1 = dropWhile isspace s;
          neg = (case s1 of c # _ \<Rightarrow> c = CHR ''-'' | [] \<Rightarrow> False);
          s2 = (case s1 of c # cs \<Rightarrow> if c = CHR ''-'' \<or> c = CHR ''+'' then cs else s1 | [] \<Rightarrow> []);
          n = foldl (\<lambda>a c. a * 10 + (of_char c - 48)) (0::int) (takeWhile isdigit s2)
      in if neg then - n else n)"

text \<open>
  \<^verbatim>\<open>parse_request\<close>.  \<open>buf\<close> holds the \<^verbatim>\<open>rlen\<close> bytes of the first \<^verbatim>\<open>recv\<close>,
  \<open>later\<close> the bytes the peer sends after them before it stops; \<open>malloc_max\<close> is
  the largest allocation that succeeds.  \<open>None\<close> is the return value -1.
\<close>

definition parse_request :: "nat \<Rightarrow> string \<Rightarrow> string \<Rightarrow> http_req option" where
  "parse_request malloc_max buf later =
     (if length buf = 0 then None
      else let s = cstr buf in
        case strstr s CRLF of None \<Rightarrow> None
        | Some line_end \<Rightarrow>
          (case sscanf3 (take line_end s) of None \<Rightarrow> None
           | Some (m, u, pr) \<Rightarrow>
             (let p = drop (line_end + 2) s in
              case strstr p (CRLF @ CRLF) of
                None \<Rightarrow> Some \<lparr>meth = m, uri = u, proto = pr, headers = [], body = None\<rparr>
              | Some hdrend \<Rightarrow>
                (let hdrlen = (if hdrend \<ge> BUFSIZE then BUFSIZE - 1 else hdrend);
                     hs = take hdrlen p
                 in case my_strcasestr hs ''Content-Length:'' of
                      None \<Rightarrow> Some \<lparr>meth = m, uri = u, proto = pr, headers = hs, body = None\<rparr>
                    | Some cl \<Rightarrow>
                      (let num = dropWhile isspace (drop 15 cl);
                           content_len = atoi num;
                           have = drop (line_end + 2 + hdrend + 4) buf
                       in if content_len > 0 then
                            (if nat content_len + 1 > malloc_max then None
                             else Some \<lparr>meth = m, uri = u, proto = pr, headers = hs,
                                        body = Some (take (nat content_len) (have @ later))\<rparr>)
                          else Some \<lparr>meth = m, uri = u, proto = pr, headers = hs,
                                      body = None\<rparr>)))))"

definition header_get :: "string \<Rightarrow> string \<Rightarrow> string option" where
  "header_get hs name =
     (case my_strcasestr hs name of None \<Rightarrow> None
      | Some p \<Rightarrow>
        (case strchr p CHR '':'' of None \<Rightarrow> None
         | Some colon \<Rightarrow> Some (dropWhile isspace (drop (colon + 1) p))))"

definition check_basic_auth_header :: "config \<Rightarrow> string option \<Rightarrow> bool" where
  "check_basic_auth_header cfg hv =
     (if \<not> g_auth_enabled cfg then True
      else case hv of None \<Rightarrow> False
      | Some v0 \<Rightarrow>
        (let v = (if strncasecmp_eq v0 ''Authorization:'' 14
                  then dropWhile isspace (drop 14 v0) else v0)
         in if \<not> strncasecmp_eq v ''Basic '' 6 then False
            else let dec = cstr (b64dec_simple (drop 6 v) 256) in
              case strchr dec CHR '':'' of None \<Rightarrow> False
              | Some sep \<Rightarrow> take sep dec = g_user cfg \<and> drop (sep + 1) dec = g_pass cfg))"

subsection \<open>The file system the handlers run on\<close>

text \<open>
  The system calls of the handlers act on a file system of regular files, directories
  and symbolic links, kept as an association list from canonical absolute paths (lists
  of names, \<open>[]\<close> being \<^verbatim>\<open>/\<close>) to nodes, in creation order, which is the order
  \<^verbatim>\<open>readdir\<close> reports.  A symbolic link holds its target as a canonical absolute
  path.  Path lookup follows links in every component but, for the calls that do not
  follow, the last one, and gives up after \<open>SYMLOOP_MAX\<close> links.  Permissions are
  not modelled (the server is meant to run as root), nor are device files; no other
  process changes the file system during a request.  \<open>write_max\<close> is the number
  of bytes one \<^verbatim>\<open>write\<close> call accepts, \<open>malloc_max\<close> the largest allocation
  that succeeds, \<open>fd_free\<close> the number of descriptors the process can still
  open: \<^verbatim>\<open>open\<close> fails when it is 0, and a handler closes what it opened.  The paths this program hands to system calls never hold a
  \<^verbatim>\<open>.\<close> or \<^verbatim>\<open>..\<close> segment, so lookup does not interpret them.
\<close>

datatype node = File string | Dir | Symlink "string list"

record world =
  files :: "(string list \<times> node) list"
  cwd :: "string list"
  write_max :: nat
  malloc_max :: nat
  fd_free :: nat

definition SYMLOOP_MAX :: nat where
  "SYMLOOP_MAX = 32"

definition node_at :: "(string list \<times> node) list \<Rightarrow> string list \<Rightarrow> node option" where
  "node_at fs p = (if p = [] then Some Dir else map_of fs p)"

fun walk :: "nat \<Rightarrow> (string list \<times> node) list \<Rightarrow> bool \<Rightarrow> string list \<Rightarrow> string list
               \<Rightarrow> string list option" where
  "walk n fs follow cur [] = Some cur"
| "walk n fs follow cur (c # cs) =
     (if node_at fs cur \<noteq> Some Dir then None
      else case node_at fs (cur @ [c]) of
        Some (Symlink t) \<Rightarrow>
          if cs = [] \<and> \<not> follow then Some (cur @ [c])
          else (case n of 0 \<Rightarrow> None | Suc m \<Rightarrow> walk m fs follow [] (t @ cs))
      | _ \<Rightarrow> walk n fs follow (cur @ [c]) cs)"

definition resolve :: "world \<Rightarrow> bool \<Rightarrow> string \<Rightarrow> string list option" where
  "resolve w follow path =
     (case path of [] \<Rightarrow> None
      | c # _ \<Rightarrow> walk SYMLOOP_MAX (files w) follow (if c = CHR ''/'' then [] else cwd w)
                   (strtok path CHR ''/''))"

definition fs_stat :: "world \<Rightarrow> string \<Rightarrow> node option" where
  "fs_stat w path =
     (case resolve w True path of None \<Rightarrow> None | Some q \<Rightarrow> node_at (files w) q)"

definition fs_lstat :: "world \<Rightarrow> string \<Rightarrow> node option" where
  "fs_lstat w path =
     (case resolve w False path of None \<Rightarrow> None | Some q \<Rightarrow> node_at (files w) q)"

definition S_ISDIR :: "node \<Rightarrow> bool" where
  "S_ISDIR st = (st = Dir)"

definition st_size :: "node \<Rightarrow> nat" where
  "st_size st = (case st of File content \<Rightarrow> length content | _ \<Rightarrow> 0)"

text \<open>\<^verbatim>\<open>opendir\<close> gives the directory's canonical path, \<^verbatim>\<open>readdir\<close> its names.\<close>

definition fs_opendir :: "world \<Rightarrow> string \<Rightarrow> string list option" where
  "fs_opendir w path =
     (case resolve w True path of None \<Rightarrow> None
      | Some q \<Rightarrow> if node_at (files w) q = Some Dir then Some q else None)"

definition fs_readdir :: "world \<Rightarrow> string list \<Rightarrow> string list" where
  "fs_readdir w q =
     ''.'' # ''..'' # map (\<lambda>(p, n). last p) (filter (\<lambda>(p, n). p \<noteq> [] \<and> butlast p = q) (files w))"

text \<open>\<^verbatim>\<open>mkdir\<close>: whether it returned 0, and the file system after it.\<close>

definition fs_mkdir :: "world \<Rightarrow> string \<Rightarrow> bool \<times> world" where
  "fs_mkdir w path =
     (case resolve w False path of None \<Rightarrow> (False, w)
      | Some q \<Rightarrow>
          if node_at (files w) q = None then (True, w\<lparr>files := files w @ [(q, Dir)]\<rparr>)
          else (False, w))"

text \<open>
  \<^verbatim>\<open>open(path, O_RDONLY)\<close> followed by reading to the end: the content, or
  \<open>None\<close> when \<^verbatim>\<open>open\<close> fails, which it does when no descriptor is free.  The
  handler opens only what \<^verbatim>\<open>stat\<close> reported as a non-directory.
\<close>

definition fs_open_read :: "world \<Rightarrow> string \<Rightarrow> string option" where
  "fs_open_read w path =
     (if fd_free w = 0 then None
      else case fs_stat w path of Some (File content) \<Rightarrow> Some content | _ \<Rightarrow> None)"

text \<open>
  \<^verbatim>\<open>open(path, O_CREAT | O_TRUNC | O_WRONLY, 0644)\<close>: the descriptor is the canonical
  path of the file, which is empty afterwards.
\<close>

definition fs_open_trunc :: "world \<Rightarrow> string \<Rightarrow> string list option \<times> world" where
  "fs_open_trunc w path =
     (if fd_free w = 0 then (None, w)
      else case resolve w True path of None \<Rightarrow> (None, w)
      | Some q \<Rightarrow>
        (case node_at (files w) q of
           None \<Rightarrow> (Some q, w\<lparr>files := files w @ [(q, File [])]\<rparr>)
         | Some (File content) \<Rightarrow> (Some q, w\<lparr>files := AList.update q (File []) (files w)\<rparr>)
         | Some other \<Rightarrow> (None, w)))"

text \<open>\<^verbatim>\<open>write\<close> on a descriptor at offset 0: the count written and the file system.\<close>

definition fs_write :: "world \<Rightarrow> string list \<Rightarrow> string \<Rightarrow> nat \<times> world" where
  "fs_write w fd bytes =
     (let k = min (length bytes) (write_max w)
      in (k, w\<lparr>files := AList.update fd (File (take k bytes)) (files w)\<rparr>))"

definition fs_unlink :: "world \<Rightarrow> string \<Rightarrow> bool \<times> world" where
  "fs_unlink w path =
     (case resolve w False path of None \<Rightarrow> (False, w)
      | Some q \<Rightarrow>
        (case node_at (files w) q of
           Some (File content) \<Rightarrow> (True, w\<lparr>files := AList.delete q (files w)\<rparr>)
         | Some (Symlink t) \<Rightarrow> (True, w\<lparr>files := AList.delete q (files w)\<rparr>)
         | _ \<Rightarrow> (False, w)))"

definition fs_rmdir :: "world \<Rightarrow> string \<Rightarrow> bool \<times> world" where
  "fs_rmdir w path =
     (case resolve w False path of None \<Rightarrow> (False, w)
      | Some q \<Rightarrow>
          if q \<noteq> [] \<and> node_at (files w) q = Some Dir
             \<and> filter (\<lambda>(p, n). p \<noteq> [] \<and> butlast p = q) (files w) = []
          then (True, w\<lparr>files := AList.delete q (files w)\<rparr>)
          else (False, w))"

subsection \<open>API handlers\<close>

definition DQ :: string where
  "DQ = [CHR 0x22]"

text \<open>The name sanitising loop of \<^verbatim>\<open>api_list\<close>; \<open>j\<close> is the index into \<^verbatim>\<open>jsafe\<close>.\<close>

fun json_safe :: "nat \<Rightarrow> string \<Rightarrow> string" where
  "json_safe j [] = []"
| "json_safe j (c # cs) =
     (if \<not> j + 1 < PATH_MAX then []
      else if c = CHR 0x22 \<or> c = CHR 0x5C then CHR 0x5C # c # json_safe (j + 2) cs
      else c # json_safe (j + 1) cs)"

text \<open>
  \<^verbatim>\<open>pos += snprintf(out + pos, sizeof(out) - pos, ...)\<close> on the \<open>BUFSIZE\<close> bytes of
  \<^verbatim>\<open>out\<close>.  Once \<open>pos\<close> has passed the end of the buffer the C code is undefined;
  the model keeps the truncated buffer.
\<close>

definition snappend :: "string \<times> nat \<Rightarrow> string \<Rightarrow> string \<times> nat" where
  "snappend b s = (take (BUFSIZE - 1) (fst b @ s), snd b + length s)"

definition list_entry :: "string \<Rightarrow> string \<Rightarrow> node \<Rightarrow> string" where
  "list_entry reqpath d_name st =
     (let type = (if S_ISDIR st then ''dir'' else ''file'');
          size = (if S_ISDIR st then 0 else st_size st);
          jsafe = json_safe 0 d_name;
          clientpath = take (PATH_MAX - 1)
            (if reqpath = ''/'' then ''/'' @ d_name else reqpath @ ''/'' @ d_name)
      in ''{'' @ DQ @ ''name'' @ DQ @ '':'' @ DQ @ jsafe @ DQ
         @ '','' @ DQ @ ''path'' @ DQ @ '':'' @ DQ @ clientpath @ DQ
         @ '','' @ DQ @ ''type'' @ DQ @ '':'' @ DQ @ type @ DQ
         @ '','' @ DQ @ ''size'' @ DQ @ '':'' @ decimal size @ ''}'')"

fun list_loop :: "world \<Rightarrow> string \<Rightarrow> string \<Rightarrow> string list \<Rightarrow> string \<times> nat \<Rightarrow> bool
                    \<Rightarrow> string \<times> nat" where
  "list_loop w fs reqpath [] b first = b"
| "list_loop w fs reqpath (d_name # es) b first =
     (if d_name = ''.'' \<or> d_name = ''..'' then list_loop w fs reqpath es b first
      else case fs_stat w (take (PATH_MAX - 1) (fs @ ''/'' @ d_name)) of
        None \<Rightarrow> list_loop w fs reqpath es b first
      | Some st \<Rightarrow>
          (let b1 = (if \<not> first then snappend b '','' else b);
               b2 = snappend b1 (list_entry reqpath d_name st)
           in if snd b2 > BUFSIZE - 512 then b2
              else list_loop w fs reqpath es b2 False))"

definition api_list :: "config \<Rightarrow> world \<Rightarrow> string \<Rightarrow> response" where
  "api_list cfg w reqpath =
     (let fs = join_path (g_root cfg) reqpath in
      case fs_opendir w fs of
        None \<Rightarrow> reply 200 ''OK'' (Some ''application/json; charset=utf-8'') None ''[]''
      | Some d \<Rightarrow>
          (let b = snappend
                     (list_loop w fs reqpath (fs_readdir w d) (snappend ([], 0) ''['') True)
                     '']''
           in \<lparr>resp_head = send_headers 200 ''OK'' (Some ''application/json; charset=utf-8'')
                              (snd b) None,
               resp_body = fst b\<rparr>))"

definition content_type :: "string \<Rightarrow> string" where
  "content_type fs =
     (case strrchr fs CHR ''.'' of
        None \<Rightarrow> ''application/octet-stream''
      | Some i \<Rightarrow>
          (let ext = drop i fs in
           if strcasecmp_eq ext ''.html'' \<or> strcasecmp_eq ext ''.htm'' then ''text/html''
           else if strcasecmp_eq ext ''.txt'' then ''text/plain''
           else if strcasecmp_eq ext ''.json'' then ''application/json''
           else if strcasecmp_eq ext ''.jpg'' \<or> strcasecmp_eq ext ''.jpeg'' then ''image/jpeg''
           else if strcasecmp_eq ext ''.png'' then ''image/png''
           else ''application/octet-stream''))"

definition api_download :: "config \<Rightarrow> world \<Rightarrow> string \<Rightarrow> response" where
  "api_download cfg w reqpath =
     (let fs = join_path (g_root cfg) reqpath in
      case fs_stat w fs of
        None \<Rightarrow> reply 404 ''Not Found'' (Some ''text/plain; charset=utf-8'') None ''Not found''
      | Some st \<Rightarrow>
          if S_ISDIR st
          then reply 404 ''Not Found'' (Some ''text/plain; charset=utf-8'') None ''Not found''
          else (case fs_open_read w fs of
                  None \<Rightarrow> reply 500 ''Error'' (Some ''text/plain; charset=utf-8'') None ''Error''
                | Some content \<Rightarrow>
                    \<lparr>resp_head = send_headers 200 ''OK'' (Some (content_type fs)) (st_size st) None,
                     resp_body = content\<rparr>))"

text \<open>The loop shared by \<^verbatim>\<open>api_upload\<close> and \<^verbatim>\<open>api_mkdir\<close>; the result of \<^verbatim>\<open>mkdir\<close> is ignored.\<close>

fun mkdirs :: "world \<Rightarrow> string \<Rightarrow> string list \<Rightarrow> world" where
  "mkdirs w accum [] = w"
| "mkdirs w accum (tok # rest) =
     mkdirs (snd (fs_mkdir w (accum @ tok @ ''/''))) (accum @ tok @ ''/'') rest"

definition starts_slash :: "string \<Rightarrow> bool" where
  "starts_slash s = (case s of c # _ \<Rightarrow> c = CHR ''/'' | [] \<Rightarrow> False)"

definition api_upload :: "config \<Rightarrow> world \<Rightarrow> string \<Rightarrow> http_req \<Rightarrow> response \<times> world" where
  "api_upload cfg w reqpath req =
     (case body req of
        None \<Rightarrow> (reply 400 ''Bad Request'' (Some ''text/plain'') None ''No body'', w)
      | Some bytes \<Rightarrow>
        if length bytes = 0
        then (reply 400 ''Bad Request'' (Some ''text/plain'') None ''No body'', w)
        else
          (let fs = join_path (g_root cfg) reqpath;
               tmp0 = take (PATH_MAX - 1) fs;
               w1 = (case strrchr tmp0 CHR ''/'' of
                       None \<Rightarrow> w
                     | Some slash \<Rightarrow>
                         (let tmp = take slash tmp0 in
                          mkdirs w (if starts_slash tmp then ''/'' else [])
                            (strtok (if starts_slash tmp then tl tmp else tmp) CHR ''/'')))
           in case fs_open_trunc w1 fs of
                (None, w2) \<Rightarrow> (reply 500 ''Internal'' (Some ''text/plain'') None ''Failed'', w2)
              | (Some fd, w2) \<Rightarrow>
                  (case fs_write w2 fd bytes of
                     (n, w3) \<Rightarrow>
                       if n \<noteq> length bytes
                       then (reply 500 ''Internal'' (Some ''text/plain'') None ''Write failed'', w3)
                       else (reply 201 ''Created'' (Some ''text/plain'') None ''Created'', w3))))"

definition api_mkdir :: "config \<Rightarrow> world \<Rightarrow> string \<Rightarrow> response \<times> world" where
  "api_mkdir cfg w reqpath =
     (let fs = join_path (g_root cfg) reqpath;
          tmp = take (PATH_MAX - 1) fs;
          p = (if starts_slash tmp then tl tmp else tmp);
          accum = (if starts_slash fs then ''/'' else [])
      in (reply 201 ''Created'' (Some ''text/plain'') None ''Created'',
          mkdirs w accum (strtok p CHR ''/'')))"

definition api_delete :: "config \<Rightarrow> world \<Rightarrow> string \<Rightarrow> response \<times> world" where
  "api_delete cfg w reqpath =
     (let fs = join_path (g_root cfg) reqpath in
      case fs_lstat w fs of
        None \<Rightarrow> (reply 404 ''Not Found'' (Some ''text/plain'') None ''Not found'', w)
      | Some st \<Rightarrow>
          (case (if S_ISDIR st then fs_rmdir w fs else fs_unlink w fs) of
             (ok, w') \<Rightarrow>
               if ok
               then (\<lparr>resp_head = send_headers 204 ''No Content'' None 0 None, resp_body = []\<rparr>, w')
               else (reply 500 ''Internal'' (Some ''text/plain'') None ''Error'', w')))"

definition serve_index :: "config \<Rightarrow> response" where
  "serve_index cfg = reply 200 ''OK'' (Some ''text/html; charset=utf-8'') None (INDEX_HTML cfg)"

subsection \<open>The connection worker\<close>

text \<open>
  The query handling that \<^verbatim>\<open>conn_thread\<close> repeats in every API branch: \<open>None\<close>
  when the target has no \<^verbatim>\<open>?\<close> or no \<^verbatim>\<open>path=\<close> after it, else the decoded value.
\<close>

definition query_path :: "string \<Rightarrow> string option" where
  "query_path u =
     (case strchr u CHR ''?'' of None \<Rightarrow> None
      | Some q \<Rightarrow>
          (let tmp = take (PATH_MAX - 1) (drop (q + 1) u) in
           case strstr tmp ''path='' of None \<Rightarrow> None
           | Some i \<Rightarrow>
               Some (cstr (url_decode (takeWhile (\<lambda>c. c \<noteq> CHR ''&'') (drop (i + 5) tmp))))))"

definition bad_request :: response where
  "bad_request = \<lparr>resp_head = send_headers 400 ''Bad Request'' (Some ''text/plain'') 11 None,
                   resp_body = ''Bad Request''\<rparr>"

definition route :: "config \<Rightarrow> world \<Rightarrow> http_req \<Rightarrow> response \<times> world" where
  "route cfg w req =
     (if strcasecmp_eq (meth req) ''GET''
         \<and> (uri req = ''/'' \<or> strncmp_eq (uri req) ''/?path='' 6)
      then (serve_index cfg, w)
      else if strcasecmp_eq (meth req) ''GET'' \<and> strncmp_eq (uri req) ''/api/list'' 9
      then (case query_path (uri req) of
              None \<Rightarrow> (api_list cfg w ''/'', w)
            | Some dec \<Rightarrow> (api_list cfg w dec, w))
      else if strcasecmp_eq (meth req) ''GET'' \<and> strncmp_eq (uri req) ''/api/download'' 13
      then (case query_path (uri req) of
              None \<Rightarrow> (bad_request, w)
            | Some dec \<Rightarrow> (api_download cfg w dec, w))
      else if strcasecmp_eq (meth req) ''PUT'' \<and> strncmp_eq (uri req) ''/api/upload'' 11
      then (case query_path (uri req) of
              None \<Rightarrow> (bad_request, w)
            | Some dec \<Rightarrow> api_upload cfg w dec req)
      else if strcasecmp_eq (meth req) ''POST'' \<and> strncmp_eq (uri req) ''/api/mkdir'' 10
      then (case query_path (uri req) of
              None \<Rightarrow> (bad_request, w)
            | Some dec \<Rightarrow> api_mkdir cfg w dec)
      else if strcasecmp_eq (meth req) ''POST'' \<and> strncmp_eq (uri req) ''/api/delete'' 11
      then (case query_path (uri req) of
              None \<Rightarrow> (bad_request, w)
            | Some dec \<Rightarrow> api_delete cfg w dec)
      else (reply 404 ''Not Found'' (Some ''text/plain'') None ''Not Found'', w))"

definition unauthorized :: response where
  "unauthorized =
     \<lparr>resp_head = send_headers 401 ''Unauthorized'' (Some ''text/plain'') 13
                    (Some (''WWW-Authenticate: Basic realm='' @ DQ @ ''WebFS'' @ DQ @ CRLF)),
      resp_body = ''Unauthorized'' @ [CHR 0x0A]\<rparr>"

text \<open>
  \<^verbatim>\<open>conn_thread\<close>: \<open>first\<close> is what the first \<^verbatim>\<open>recv\<close> has to offer (it takes at
  most \<open>BUFSIZE\<close> bytes of it), \<open>later\<close> what the peer sends afterwards.  The
  result is what was sent before the socket was closed (\<open>None\<close>: nothing), and the
  file system left behind.
\<close>

definition conn_thread :: "config \<Rightarrow> world \<Rightarrow> string \<Rightarrow> string \<Rightarrow> response option \<times> world" where
  "conn_thread cfg w first later =
     (let buf = take BUFSIZE first in
      if length buf = 0 then (None, w)
      else case parse_request (malloc_max w) buf (drop BUFSIZE first @ later) of
        None \<Rightarrow> (None, w)
      | Some req \<Rightarrow>
          if \<not> check_basic_auth_header cfg (header_get (headers req) ''Authorization'')
          then (Some unauthorized, w)
          else (case route cfg w req of (r, w') \<Rightarrow> (Some r, w')))"

subsection \<open>Sample configurations\<close>

definition srv_config :: config where
  "srv_config = \<lparr>g_port = 8080, g_root = ''/srv'', g_user = [], g_pass = [],
                  g_auth_enabled = False, INDEX_HTML = ''<html></html>''\<rparr>"

definition auth_config :: config where
  "auth_config = \<lparr>g_port = 8080, g_root = ''/srv'', g_user = ''user'', g_pass = ''pass'',
                   g_auth_enabled = True, INDEX_HTML = ''<html></html>''\<rparr>"

definition srv_world :: world where
  "srv_world = \<lparr>files = [([''srv''], Dir),
                          ([''srv'', ''f.txt''], File ''hello''),
                          ([''srv'', ''d''], Dir),
                          ([''srv'', ''l''], Symlink [''srv'', ''d''])],
                 cwd = [], write_max = 4096, malloc_max = 65536, fd_free = 16\<rparr>"

text \<open>The same file system when the process has no descriptor left.\<close>

definition busy_world :: world where
  "busy_world = srv_world\<lparr>fd_free := 0\<rparr>"

definition hi_req :: http_req where
  "hi_req = \<lparr>meth = ''PUT'', uri = ''/api/upload?path=/new/hi.txt'', proto = ''HTTP/1.1'',
             headers = ''Content-Length: 2'', body = Some ''hi''\<rparr>"

definition hi_world :: world where
  "hi_world = srv_world\<lparr>files := files srv_world
                 @ [([''srv'', ''new''], Dir), ([''srv'', ''new'', ''hi.txt''], File ''hi'')]\<rparr>"

text \<open>The file system of a root \<^verbatim>\<open>/srv\<close> as it grows node by node.\<close>

definition scenario_world :: "nat \<Rightarrow> world" where
  "scenario_world n =
     \<lparr>files = take n [([''srv''], Dir), ([''srv'', ''a''], Dir), ([''srv'', ''a'', ''b''], Dir),
                       ([''srv'', ''a'', ''b'', ''c''], Dir),
                       ([''srv'', ''a'', ''b'', ''c'', ''f.txt''], File ''hello'')],
      cwd = [], write_max = 4096, malloc_max = 65536, fd_free = 16\<rparr>"

definition quote_world :: world where
  "quote_world = \<lparr>files = [([''srv''], Dir), ([''srv'', ''a'' @ DQ @ ''b''], File [])],
                   cwd = [], write_max = 4096, malloc_max = 65536, fd_free = 16\<rparr>"

subsection \<open>Notions used to state the properties\<close>

text \<open>
  A header block is well-formed when \<^verbatim>\<open>send_headers\<close> wrote it, with a content type
  unless the status is 204.
\<close>

definition well_headed :: "response \<Rightarrow> bool" where
  "well_headed r =
     (\<exists>code status ctype len extra.
        resp_head r = send_headers code status ctype len extra \<and> (ctype = None \<longrightarrow> code = 204))"

text \<open>The path ends in the extension \<open>e\<close> (given in lower case), whatever its case.\<close>

definition has_ext :: "string \<Rightarrow> string \<Rightarrow> bool" where
  "has_ext fs e = (length e \<le> length fs \<and> map tolower (drop (length fs - length e) fs) = e)"

text \<open>What path lookup can see of a node: whether it is a directory or a link, and where to.\<close>

definition dirlink :: "node option \<Rightarrow> node option" where
  "dirlink x = (case x of Some Dir \<Rightarrow> Some Dir | Some (Symlink t) \<Rightarrow> Some (Symlink t) | _ \<Rightarrow> None)"

text \<open>
  \<^verbatim>\<open>mkdir\<close> seen on path components, from a starting directory, and the loop of
  \<^verbatim>\<open>api_mkdir\<close> over the components already passed (\<open>pre\<close>) and those to come.
\<close>

definition mkdir_at :: "world \<Rightarrow> string list \<Rightarrow> string list \<Rightarrow> world" where
  "mkdir_at w start comps =
     (case walk SYMLOOP_MAX (files w) False start comps of
        None \<Rightarrow> w
      | Some q \<Rightarrow> if node_at (files w) q = None then w\<lparr>files := files w @ [(q, Dir)]\<rparr> else w)"

fun mkdirs_at :: "world \<Rightarrow> string list \<Rightarrow> string list \<Rightarrow> string list \<Rightarrow> world" where
  "mkdirs_at w start pre [] = w"
| "mkdirs_at w start pre (t # ts) =
     mkdirs_at (mkdir_at w start (pre @ [t])) start (pre @ [t]) ts"

text \<open>
  The text the check decodes: what follows \<^verbatim>\<open>Basic \<close> at the start of the value, or
  after a leading \<^verbatim>\<open>Authorization:\<close> and white space; case is ignored.
\<close>

definition auth_payload :: "string \<Rightarrow> string option" where
  "auth_payload v =
     (if map tolower (take 6 v) = ''basic '' then Some (drop 6 v)
      else if map tolower (take 14 v) = ''authorization:''
              \<and> map tolower (take 6 (dropWhile isspace (drop 14 v))) = ''basic ''
      then Some (drop 6 (dropWhile isspace (drop 14 v)))
      else None)"

text \<open>
  The request line of a read (the bytes before the first CRLF of the C string), its
  white-space separated tokens, and a line of fewer than three tokens none of which is
  longer than the \<^verbatim>\<open>sscanf\<close> field that reads it.
\<close>

fun wtoks :: "string \<Rightarrow> string \<Rightarrow> string list" where
  "wtoks cur [] = (if cur = [] then [] else [cur])"
| "wtoks cur (c # cs) =
     (if isspace c then (if cur = [] then wtoks [] cs else cur # wtoks [] cs)
      else wtoks (cur @ [c]) cs)"

definition ws_tokens :: "string \<Rightarrow> string list" where
  "ws_tokens s = wtoks [] s"

definition request_line :: "string \<Rightarrow> string option" where
  "request_line buf =
     (case strstr (cstr buf) CRLF of None \<Rightarrow> None | Some i \<Rightarrow> Some (take i (cstr buf)))"

definition short_line :: "string \<Rightarrow> bool" where
  "short_line line =
     (case ws_tokens line of
        [] \<Rightarrow> True
      | [a] \<Rightarrow> length a \<le> 15
      | [a, b] \<Rightarrow> length a \<le> 15 \<and> length b \<le> 1023
      | _ \<Rightarrow> False)"

text \<open>
  The bytes a list of tokens needs in a buffer, each with its separator, and the
  invariant of the loop of \<^verbatim>\<open>join_path\<close>: there is room left for the tokens to come,
  so that no append is cut.
\<close>

definition room :: "string list \<Rightarrow> nat" where
  "room ts = sum_list (map (\<lambda>t. length t + 1) ts)"

definition fits :: "nat \<Rightarrow> string \<Rightarrow> string list \<Rightarrow> bool" where
  "fits b out rest \<longleftrightarrow>
     (if out = [] then room rest \<le> b + 1 else length out + room rest \<le> b)"

text \<open>
  The way to a path is clear when each of its components, from the starting
  directory on, is absent or a directory; \<open>all_dirs\<close> says that all of them are
  directories.  A file system grows into another when every node is kept and every
  new node is a directory.
\<close>

fun clear_way :: "(string list \<times> node) list \<Rightarrow> string list \<Rightarrow> string list \<Rightarrow> bool" where
  "clear_way fs cur [] = True"
| "clear_way fs cur (c # cs) =
     ((node_at fs (cur @ [c]) = None \<or> node_at fs (cur @ [c]) = Some Dir)
      \<and> clear_way fs (cur @ [c]) cs)"

definition clear_path :: "world \<Rightarrow> string \<Rightarrow> bool" where
  "clear_path w path =
     (node_at (files w) (if starts_slash path then [] else cwd w) = Some Dir
      \<and> clear_way (files w) (if starts_slash path then [] else cwd w) (strtok path CHR ''/''))"

fun all_dirs :: "(string list \<times> node) list \<Rightarrow> string list \<Rightarrow> string list \<Rightarrow> bool" where
  "all_dirs fs cur [] = (node_at fs cur = Some Dir)"
| "all_dirs fs cur (c # cs) = (node_at fs cur = Some Dir \<and> all_dirs fs (cur @ [c]) cs)"

definition grows :: "(string list \<times> node) list \<Rightarrow> (string list \<times> node) list \<Rightarrow> bool" where
  "grows fs fs' \<longleftrightarrow>
     (\<forall>p. node_at fs' p = node_at fs p \<or> (node_at fs p = None \<and> node_at fs' p = Some Dir))"

section \<open>Evaluation\<close>

text \<open>The definitions a closed instance is evaluated with.\<close>

lemma char_of_eq_iff': "c = char_of n \<longleftrightarrow> take_bit 8 n = of_char c"
  using char_of_eq_iff [of n c] by auto

lemmas eval_defs =
  char_of_eq_iff char_of_eq_iff' decimal.simps
  join_path_def cstr_def strtok_def PATH_MAX_def BUFSIZE_def CRLF_def DQ_def
  isspace_def isxdigit_def isdigit_def hexval_def tolower_def
  strcasecmp_eq_def strncmp_eq_def strncasecmp_eq_def
  b64val_def b64dec_simple_def send_headers_def reply_def body_len_def
  scan_s_def sscanf3_def atoi_def parse_request_def header_get_def
  check_basic_auth_header_def
  SYMLOOP_MAX_def node_at_def resolve_def fs_stat_def fs_lstat_def S_ISDIR_def st_size_def
  fs_opendir_def fs_readdir_def fs_mkdir_def fs_open_read_def fs_open_trunc_def fs_write_def
  fs_unlink_def fs_rmdir_def
  snappend_def list_entry_def api_list_def content_type_def api_download_def starts_slash_def
  api_upload_def api_mkdir_def api_delete_def serve_index_def query_path_def bad_request_def
  route_def unauthorized_def conn_thread_def
  srv_config_def auth_config_def srv_world_def quote_world_def has_ext_def
  hi_req_def hi_world_def scenario_world_def busy_world_def clear_path_def auth_payload_def request_line_def ws_tokens_def short_line_def

section \<open>Path resolution\<close>

text \<open>
  C1 (path confinement).  \<^verbatim>\<open>join_path\<close> collapses \<^verbatim>\<open>..\<close> over the concatenation of
  the root and the request path, so with a root of two segments a request of
  \<^verbatim>\<open>../etc/passwd\<close> removes the root's last segment: the result is
  \<^verbatim>\<open>/var/etc/passwd\<close>, which does not begin with the root \<^verbatim>\<open>/var/mobile\<close>.
\<close>

theorem join_path_leaves_root:
  "join_path ''/var/mobile'' ''../etc/passwd'' = ''/var/etc/passwd''
   \<and> \<not> prefix ''/var/mobile'' (join_path ''/var/mobile'' ''../etc/passwd'')"
  by (simp add: eval_defs)

section \<open>Listing\<close>

lemma fs_opendir_None_iff: "fs_opendir w path = None \<longleftrightarrow> fs_stat w path \<noteq> Some Dir"
  by (simp add: fs_opendir_def fs_stat_def split: option.splits)

text \<open>
  C6 (list on a missing path).  When the resolved path does not name a directory
  (\<^verbatim>\<open>stat\<close> fails, or finds something that is not a directory), \<^verbatim>\<open>opendir\<close> fails
  and \<^verbatim>\<open>api_list\<close> answers \<^verbatim>\<open>200 OK\<close> with the body \<^verbatim>\<open>[]\<close>.
\<close>

theorem api_list_missing_is_empty:
  assumes "fs_stat w (join_path (g_root cfg) reqpath) \<noteq> Some Dir"
  shows "api_list cfg w reqpath
           = \<lparr>resp_head = send_headers 200 ''OK'' (Some ''application/json; charset=utf-8'') 2 None,
              resp_body = ''[]''\<rparr>
         \<and> prefix (''HTTP/1.1 200 OK'' @ CRLF) (resp_head (api_list cfg w reqpath))"
proof -
  from assms have "fs_opendir w (join_path (g_root cfg) reqpath) = None"
    by (simp add: fs_opendir_None_iff)
  then have eq: "api_list cfg w reqpath
      = \<lparr>resp_head = send_headers 200 ''OK'' (Some ''application/json; charset=utf-8'') 2 None,
         resp_body = ''[]''\<rparr>"
    by (simp add: api_list_def reply_def numeral_2_eq_2)
  have "prefix (''HTTP/1.1 200 OK'' @ CRLF)
          (send_headers 200 ''OK'' (Some ''application/json; charset=utf-8'') 2 None)"
    by (simp add: send_headers_def CRLF_def decimal.simps)
  with eq show ?thesis by simp
qed

theorem api_list_missing_is_empty_witness:
  "fs_stat srv_world (join_path (g_root srv_config) ''/does/not/exist'') \<noteq> Some Dir
   \<and> resp_body (api_list srv_config srv_world ''/does/not/exist'') = ''[]''
   \<and> prefix (''HTTP/1.1 200 OK'' @ CRLF)
        (resp_head (api_list srv_config srv_world ''/does/not/exist''))"
proof -
  have h: "fs_stat srv_world (join_path (g_root srv_config) ''/does/not/exist'') \<noteq> Some Dir"
    by (simp add: eval_defs)
  note t = api_list_missing_is_empty [OF h]
  from t have b: "resp_body (api_list srv_config srv_world ''/does/not/exist'') = ''[]''"
    by (simp only: conjunct1 [OF t] response.select_convs)
  from t have c: "prefix (''HTTP/1.1 200 OK'' @ CRLF)
          (resp_head (api_list srv_config srv_world ''/does/not/exist''))"
    by (rule conjunct2)
  from h b c show ?thesis by blast
qed

text \<open>
  C9 (JSON escaping in listings).  \<^verbatim>\<open>api_list\<close> escapes the entry name for the
  \<^verbatim>\<open>name\<close> field only; the \<^verbatim>\<open>path\<close> field is built from the raw request path and
  the raw entry name.  For a directory holding one file named \<^verbatim>\<open>a"b\<close> the body is
  \<^verbatim>\<open>[{"name":"a\"b","path":"/a"b","type":"file","size":0}]\<close>.
\<close>

theorem api_list_path_not_escaped:
  "resp_body (api_list srv_config quote_world ''/'')
     = ''[{'' @ DQ @ ''name'' @ DQ @ '':'' @ DQ @ ''a'' @ [CHR 0x5C] @ DQ @ ''b'' @ DQ
       @ '','' @ DQ @ ''path'' @ DQ @ '':'' @ DQ @ ''/a'' @ DQ @ ''b'' @ DQ
       @ '','' @ DQ @ ''type'' @ DQ @ '':'' @ DQ @ ''file'' @ DQ
       @ '','' @ DQ @ ''size'' @ DQ @ '':0}]''"
  by (simp add: eval_defs)


section \<open>Response headers\<close>

lemma well_headedI:
  "ctype \<noteq> None \<or> code = 204 \<Longrightarrow>
   well_headed \<lparr>resp_head = send_headers code status ctype len extra, resp_body = b\<rparr>"
  unfolding well_headed_def
  by (intro exI [of _ code] exI [of _ status] exI [of _ ctype] exI [of _ len] exI [of _ extra])
     auto

lemma well_headed_reply: "well_headed (reply code status (Some t) extra text)"
  unfolding reply_def by (rule well_headedI) simp

lemma well_headed_api_list: "well_headed (api_list cfg w reqpath)"
  by (auto simp: api_list_def Let_def well_headed_reply intro!: well_headedI split: option.splits)

lemma well_headed_api_download: "well_headed (api_download cfg w reqpath)"
  by (auto simp: api_download_def Let_def well_headed_reply intro!: well_headedI split: option.splits)

lemma well_headed_api_upload: "well_headed (fst (api_upload cfg w reqpath req))"
  by (auto simp: api_upload_def Let_def well_headed_reply split: option.splits prod.splits)

lemma well_headed_api_mkdir: "well_headed (fst (api_mkdir cfg w reqpath))"
  by (simp add: api_mkdir_def Let_def well_headed_reply)

lemma well_headed_api_delete: "well_headed (fst (api_delete cfg w reqpath))"
  by (auto simp: api_delete_def Let_def well_headed_reply intro!: well_headedI split: option.splits prod.splits)

lemma well_headed_bad_request: "well_headed bad_request"
  unfolding bad_request_def by (rule well_headedI) simp

lemma well_headed_unauthorized: "well_headed unauthorized"
  unfolding unauthorized_def by (rule well_headedI) simp

lemma well_headed_route: "well_headed (fst (route cfg w req))"
  by (simp add: route_def serve_index_def well_headed_reply well_headed_api_list
      well_headed_api_download well_headed_api_upload well_headed_api_mkdir
      well_headed_api_delete well_headed_bad_request split: option.splits)

lemma well_headed_route_pair: "route cfg w req = (r, w') \<Longrightarrow> well_headed r"
  using well_headed_route [of cfg w req] by simp

lemma well_headed_conn_thread:
  "conn_thread cfg w first later = (Some r, w') \<Longrightarrow> well_headed r"
  by (auto simp: conn_thread_def Let_def well_headed_unauthorized
      dest: well_headed_route_pair split: if_splits option.splits prod.splits)

lemma send_headers_connection_close:
  "sublist (CRLF @ ''Connection: close'' @ CRLF) (send_headers code status ctype len extra)"
  unfolding sublist_def send_headers_def
  by (rule exI [of _ "''HTTP/1.1 '' @ decimal code @ '' '' @ status @ CRLF @ ''Server: WebFS/0.1''"],
      rule exI [of _ "''Content-Length: '' @ decimal len @ CRLF
         @ (case ctype of Some t \<Rightarrow> ''Content-Type: '' @ t @ CRLF | None \<Rightarrow> [])
         @ (case extra of Some e \<Rightarrow> e | None \<Rightarrow> []) @ CRLF"]) simp

lemma send_headers_content_length:
  "sublist (CRLF @ ''Content-Length: '' @ decimal len @ CRLF) (send_headers code status ctype len extra)"
  unfolding sublist_def send_headers_def
  by (rule exI [of _ "''HTTP/1.1 '' @ decimal code @ '' '' @ status @ CRLF @ ''Server: WebFS/0.1''
         @ CRLF @ ''Connection: close''"],
      rule exI [of _ "(case ctype of Some t \<Rightarrow> ''Content-Type: '' @ t @ CRLF | None \<Rightarrow> [])
         @ (case extra of Some e \<Rightarrow> e | None \<Rightarrow> []) @ CRLF"]) simp

lemma send_headers_content_type:
  "sublist (CRLF @ ''Content-Type: '' @ t @ CRLF) (send_headers code status (Some t) len extra)"
  unfolding sublist_def send_headers_def
  by (rule exI [of _ "''HTTP/1.1 '' @ decimal code @ '' '' @ status @ CRLF @ ''Server: WebFS/0.1''
         @ CRLF @ ''Connection: close'' @ CRLF @ ''Content-Length: '' @ decimal len"],
      rule exI [of _ "(case extra of Some e \<Rightarrow> e | None \<Rightarrow> []) @ CRLF"]) simp

lemma send_headers_204: "prefix ''HTTP/1.1 204 '' (send_headers 204 status ctype len extra)"
  by (simp add: send_headers_def decimal.simps)

text \<open>
  C8 (response headers).  Whatever \<^verbatim>\<open>conn_thread\<close> sends, for any request and any
  file system, its header block holds a \<^verbatim>\<open>Content-Length\<close> line and the line
  \<^verbatim>\<open>Connection: close\<close>, and a \<^verbatim>\<open>Content-Type\<close> line unless the status is 204.
\<close>

theorem every_response_has_headers:
  assumes "conn_thread cfg w first later = (Some r, w')"
  shows "(\<exists>len. sublist (CRLF @ ''Content-Length: '' @ decimal len @ CRLF) (resp_head r))
         \<and> sublist (CRLF @ ''Connection: close'' @ CRLF) (resp_head r)
         \<and> ((\<exists>t. sublist (CRLF @ ''Content-Type: '' @ t @ CRLF) (resp_head r))
            \<or> prefix ''HTTP/1.1 204 '' (resp_head r))"
proof -
  from assms have "well_headed r" by (rule well_headed_conn_thread)
  then obtain code status ctype len extra
    where h: "resp_head r = send_headers code status ctype len extra"
      and c: "ctype = None \<longrightarrow> code = 204"
    unfolding well_headed_def by blast
  have "\<exists>len. sublist (CRLF @ ''Content-Length: '' @ decimal len @ CRLF) (resp_head r)"
    unfolding h using send_headers_content_length by blast
  moreover have "sublist (CRLF @ ''Connection: close'' @ CRLF) (resp_head r)"
    unfolding h by (rule send_headers_connection_close)
  moreover have "(\<exists>t. sublist (CRLF @ ''Content-Type: '' @ t @ CRLF) (resp_head r))
            \<or> prefix ''HTTP/1.1 204 '' (resp_head r)"
  proof (cases ctype)
    case None
    with c have "code = 204" by simp
    then show ?thesis unfolding h using send_headers_204 by blast
  next
    case (Some t)
    then show ?thesis unfolding h using send_headers_content_type by blast
  qed
  ultimately show ?thesis by blast
qed

theorem every_response_has_headers_witness:
  "conn_thread srv_config srv_world
       (''POST /api/delete?path=/f.txt HTTP/1.1'' @ CRLF @ CRLF) []
     = (Some \<lparr>resp_head = send_headers 204 ''No Content'' None 0 None, resp_body = []\<rparr>,
        srv_world\<lparr>files := [([''srv''], Dir), ([''srv'', ''d''], Dir),
                               ([''srv'', ''l''], Symlink [''srv'', ''d''])]\<rparr>)
   \<and> (\<exists>len. sublist (CRLF @ ''Content-Length: '' @ decimal len @ CRLF)
               (send_headers 204 ''No Content'' None 0 None))
   \<and> sublist (CRLF @ ''Connection: close'' @ CRLF) (send_headers 204 ''No Content'' None 0 None)
   \<and> ((\<exists>t. sublist (CRLF @ ''Content-Type: '' @ t @ CRLF)
              (send_headers 204 ''No Content'' None 0 None))
       \<or> prefix ''HTTP/1.1 204 '' (send_headers 204 ''No Content'' None 0 None))"
proof -
  have h: "conn_thread srv_config srv_world
       (''POST /api/delete?path=/f.txt HTTP/1.1'' @ CRLF @ CRLF) []
     = (Some \<lparr>resp_head = send_headers 204 ''No Content'' None 0 None, resp_body = []\<rparr>,
        srv_world\<lparr>files := [([''srv''], Dir), ([''srv'', ''d''], Dir),
                               ([''srv'', ''l''], Symlink [''srv'', ''d''])]\<rparr>)"
    by (simp add: eval_defs)
  from every_response_has_headers [OF h] h show ?thesis
    by (simp only: response.select_convs)
qed

section \<open>Download\<close>

lemma strrchr_None_iff: "strrchr s c = None \<longleftrightarrow> c \<notin> set s"
  by (induction s) (auto split: option.splits)

lemma strrchr_Some_iff:
  "strrchr s c = Some i \<longleftrightarrow> (\<exists>pre post. s = pre @ c # post \<and> length pre = i \<and> c \<notin> set post)"
proof (induction s arbitrary: i)
  case Nil
  then show ?case by simp
next
  case (Cons x xs)
  show ?case
  proof (cases "strrchr xs c")
    case None
    then have nin: "c \<notin> set xs" by (simp add: strrchr_None_iff)
    show ?thesis
    proof
      assume "strrchr (x # xs) c = Some i"
      with None have "x = c" "i = 0" by (auto split: if_splits)
      with nin show "\<exists>pre post. x # xs = pre @ c # post \<and> length pre = i \<and> c \<notin> set post"
        by (intro exI [of _ "[]"] exI [of _ xs]) simp
    next
      assume "\<exists>pre post. x # xs = pre @ c # post \<and> length pre = i \<and> c \<notin> set post"
      then obtain pre post where *: "x # xs = pre @ c # post" "length pre = i" "c \<notin> set post"
        by blast
      show "strrchr (x # xs) c = Some i"
      proof (cases pre)
        case Nil
        with * None show ?thesis by simp
      next
        case (Cons a pre')
        with * have "xs = pre' @ c # post" by simp
        with nin show ?thesis by simp
      qed
    qed
  next
    case (Some j)
    then obtain pre post where d: "xs = pre @ c # post" "length pre = j" "c \<notin> set post"
      using Cons.IH by blast
    show ?thesis
    proof
      assume "strrchr (x # xs) c = Some i"
      with Some have "i = Suc j" by simp
      with d show "\<exists>pre post. x # xs = pre @ c # post \<and> length pre = i \<and> c \<notin> set post"
        by (intro exI [of _ "x # pre"] exI [of _ post]) simp
    next
      assume "\<exists>pre post. x # xs = pre @ c # post \<and> length pre = i \<and> c \<notin> set post"
      then obtain pre' post' where *: "x # xs = pre' @ c # post'" "length pre' = i" "c \<notin> set post'"
        by blast
      have "pre' \<noteq> []"
      proof
        assume "pre' = []"
        with * have "xs = post'" by simp
        with d *(3) show False by simp
      qed
      then obtain a p where p: "pre' = a # p" by (cases pre') auto
      with * have "xs = p @ c # post'" by simp
      with *(3) have "strrchr xs c = Some (length p)" using Cons.IH by blast
      with Some p *(2) show "strrchr (x # xs) c = Some i" by simp
    qed
  qed
qed

lemma tolower_dot: "tolower c = CHR ''.'' \<longleftrightarrow> c = CHR ''.''"
proof (cases "65 \<le> (of_char c :: nat) \<and> (of_char c :: nat) \<le> 90")
  case True
  then have "tolower c \<noteq> CHR ''.''"
    by (simp add: tolower_def char_of_eq_iff take_bit_eq_mod)
  moreover from True have "c \<noteq> CHR ''.''" by auto
  ultimately show ?thesis by simp
next
  case False
  then show ?thesis by (auto simp: tolower_def Let_def)
qed

lemma ext_match:
  assumes e: "e = CHR ''.'' # e'" "CHR ''.'' \<notin> set e'" "map tolower e = e"
  shows "(case strrchr fs CHR ''.'' of None \<Rightarrow> False | Some i \<Rightarrow> strcasecmp_eq (drop i fs) e)
         \<longleftrightarrow> has_ext fs e"
proof
  assume l: "case strrchr fs CHR ''.'' of None \<Rightarrow> False | Some i \<Rightarrow> strcasecmp_eq (drop i fs) e"
  then obtain i where i: "strrchr fs CHR ''.'' = Some i" and m: "strcasecmp_eq (drop i fs) e"
    by (auto split: option.splits)
  from i obtain pre post where d: "fs = pre @ CHR ''.'' # post" "length pre = i"
    by (auto simp: strrchr_Some_iff)
  from m e(3) have me: "map tolower (drop i fs) = e" by (simp add: strcasecmp_eq_def)
  then have "length (drop i fs) = length e" by (metis length_map)
  with d have "length fs - length e = i" "length e \<le> length fs" by auto
  with me show "has_ext fs e" by (simp add: has_ext_def)
next
  assume h: "has_ext fs e"
  define k where "k = length fs - length e"
  from h have le: "length e \<le> length fs" and me: "map tolower (drop k fs) = e"
    by (simp_all add: has_ext_def k_def)
  from me e(1) obtain c x' where x: "drop k fs = c # x'" "tolower c = CHR ''.''" "map tolower x' = e'"
    by (cases "drop k fs") auto
  from x(2) have c: "c = CHR ''.''" by (simp add: tolower_dot)
  have "CHR ''.'' \<notin> set x'"
  proof
    assume "CHR ''.'' \<in> set x'"
    then have "tolower CHR ''.'' \<in> set (map tolower x')" by (metis image_eqI set_map)
    moreover have "tolower CHR ''.'' = CHR ''.''" by (simp add: tolower_dot)
    ultimately show False using x(3) e(2) by simp
  qed
  moreover have "fs = take k fs @ CHR ''.'' # x'"
    using x(1) c by (metis append_take_drop_id)
  moreover have "length (take k fs) = k" using le by (simp add: k_def)
  ultimately have "strrchr fs CHR ''.'' = Some k"
    unfolding strrchr_Some_iff by blast
  with me e(3) show "case strrchr fs CHR ''.'' of None \<Rightarrow> False
      | Some i \<Rightarrow> strcasecmp_eq (drop i fs) e"
    by (simp add: strcasecmp_eq_def)
qed

lemma content_type_by_ext:
  "content_type fs =
     (if has_ext fs ''.html'' \<or> has_ext fs ''.htm'' then ''text/html''
      else if has_ext fs ''.txt'' then ''text/plain''
      else if has_ext fs ''.json'' then ''application/json''
      else if has_ext fs ''.jpg'' \<or> has_ext fs ''.jpeg'' then ''image/jpeg''
      else if has_ext fs ''.png'' then ''image/png''
      else ''application/octet-stream'')"
proof -
  have low: "map tolower ''.html'' = ''.html''" "map tolower ''.htm'' = ''.htm''"
    "map tolower ''.txt'' = ''.txt''" "map tolower ''.json'' = ''.json''"
    "map tolower ''.jpg'' = ''.jpg''" "map tolower ''.jpeg'' = ''.jpeg''"
    "map tolower ''.png'' = ''.png''"
    by (simp_all add: tolower_def)
  note m = ext_match [of "''.html''" "''html''" fs, simplified low]
    ext_match [of "''.htm''" "''htm''" fs, simplified low]
    ext_match [of "''.txt''" "''txt''" fs, simplified low]
    ext_match [of "''.json''" "''json''" fs, simplified low]
    ext_match [of "''.jpg''" "''jpg''" fs, simplified low]
    ext_match [of "''.jpeg''" "''jpeg''" fs, simplified low]
    ext_match [of "''.png''" "''png''" fs, simplified low]
  show ?thesis
  proof (cases "strrchr fs CHR ''.''")
    case None
    with m show ?thesis by (simp add: content_type_def)
  next
    case (Some i)
    with m show ?thesis by (simp add: content_type_def Let_def)
  qed
qed

text \<open>
  C4 (download), as the code has it.  When \<^verbatim>\<open>stat\<close> of the resolved path fails or
  finds a directory the answer is \<^verbatim>\<open>404 Not Found\<close>.  When it finds a file and
  \<^verbatim>\<open>open\<close> fails, the answer is \<^verbatim>\<open>500 Error\<close> with the body \<^verbatim>\<open>Error\<close>; when
  \<^verbatim>\<open>open\<close> succeeds, the answer is \<^verbatim>\<open>200 OK\<close> with the file's content as body, its
  size as \<^verbatim>\<open>Content-Length\<close>, and the content type given by the extension the path
  ends in, compared without regard to case.
\<close>

theorem api_download_semantics:
  "(fs_stat w (join_path (g_root cfg) reqpath) = None
      \<or> fs_stat w (join_path (g_root cfg) reqpath) = Some Dir \<longrightarrow>
        api_download cfg w reqpath
          = reply 404 ''Not Found'' (Some ''text/plain; charset=utf-8'') None ''Not found'')
   \<and> (\<forall>content. fs_stat w (join_path (g_root cfg) reqpath) = Some (File content)
          \<and> fs_open_read w (join_path (g_root cfg) reqpath) = None \<longrightarrow>
        api_download cfg w reqpath
          = reply 500 ''Error'' (Some ''text/plain; charset=utf-8'') None ''Error'')
   \<and> (\<forall>content. fs_stat w (join_path (g_root cfg) reqpath) = Some (File content)
          \<and> fs_open_read w (join_path (g_root cfg) reqpath) \<noteq> None \<longrightarrow>
        api_download cfg w reqpath
          = \<lparr>resp_head = send_headers 200 ''OK''
                           (Some (content_type (join_path (g_root cfg) reqpath)))
                           (length content) None,
             resp_body = content\<rparr>)
   \<and> (fs_open_read w (join_path (g_root cfg) reqpath) = None \<longleftrightarrow>
        fd_free w = 0 \<or> (\<forall>content. fs_stat w (join_path (g_root cfg) reqpath)
                                      \<noteq> Some (File content)))
   \<and> (\<forall>fs. content_type fs =
           (if has_ext fs ''.html'' \<or> has_ext fs ''.htm'' then ''text/html''
            else if has_ext fs ''.txt'' then ''text/plain''
            else if has_ext fs ''.json'' then ''application/json''
            else if has_ext fs ''.jpg'' \<or> has_ext fs ''.jpeg'' then ''image/jpeg''
            else if has_ext fs ''.png'' then ''image/png''
            else ''application/octet-stream''))"
proof -
  have "fs_open_read w (join_path (g_root cfg) reqpath) = None \<longleftrightarrow>
        fd_free w = 0 \<or> (\<forall>content. fs_stat w (join_path (g_root cfg) reqpath)
                                      \<noteq> Some (File content))"
    by (auto simp: fs_open_read_def split: option.splits node.splits)
  then show ?thesis
    using content_type_by_ext
    by (auto simp: api_download_def Let_def S_ISDIR_def fs_open_read_def st_size_def)
qed

theorem api_download_semantics_witness:
  "fs_stat srv_world (join_path (g_root srv_config) ''/f.txt'') = Some (File ''hello'')
   \<and> fs_open_read srv_world (join_path (g_root srv_config) ''/f.txt'') \<noteq> None
   \<and> api_download srv_config srv_world ''/f.txt''
       = \<lparr>resp_head = send_headers 200 ''OK'' (Some ''text/plain'') (length ''hello'') None,
          resp_body = ''hello''\<rparr>
   \<and> fs_stat busy_world (join_path (g_root srv_config) ''/f.txt'') = Some (File ''hello'')
   \<and> fs_open_read busy_world (join_path (g_root srv_config) ''/f.txt'') = None
   \<and> api_download srv_config busy_world ''/f.txt''
       = reply 500 ''Error'' (Some ''text/plain; charset=utf-8'') None ''Error''
   \<and> fs_stat srv_world (join_path (g_root srv_config) ''/d'') = Some Dir
   \<and> api_download srv_config srv_world ''/d''
       = reply 404 ''Not Found'' (Some ''text/plain; charset=utf-8'') None ''Not found''"
proof -
  have f: "fs_stat srv_world (join_path (g_root srv_config) ''/f.txt'') = Some (File ''hello'')"
    by (simp add: eval_defs)
  have fo: "fs_open_read srv_world (join_path (g_root srv_config) ''/f.txt'') \<noteq> None"
    by (simp add: eval_defs)
  have g: "fs_stat busy_world (join_path (g_root srv_config) ''/f.txt'') = Some (File ''hello'')"
    by (simp add: eval_defs)
  have go: "fs_open_read busy_world (join_path (g_root srv_config) ''/f.txt'') = None"
    by (simp add: eval_defs)
  have d: "fs_stat srv_world (join_path (g_root srv_config) ''/d'') = Some Dir"
    by (simp add: eval_defs)
  have p: "join_path (g_root srv_config) ''/f.txt'' = ''/srv/f.txt''"
    by (simp add: eval_defs)
  have t: "has_ext ''/srv/f.txt'' ''.txt''" "\<not> has_ext ''/srv/f.txt'' ''.html''"
    "\<not> has_ext ''/srv/f.txt'' ''.htm''"
    by (simp_all add: eval_defs)
  note a = api_download_semantics [of srv_world srv_config "''/f.txt''"]
  note b = api_download_semantics [of srv_world srv_config "''/d''"]
  note c = api_download_semantics [of busy_world srv_config "''/f.txt''"]
  from a have "content_type ''/srv/f.txt'' = ''text/plain''"
    using t by simp
  moreover from a f fo have "api_download srv_config srv_world ''/f.txt''
       = \<lparr>resp_head = send_headers 200 ''OK''
                        (Some (content_type (join_path (g_root srv_config) ''/f.txt'')))
                        (length ''hello'') None,
          resp_body = ''hello''\<rparr>"
    by blast
  ultimately have x: "api_download srv_config srv_world ''/f.txt''
       = \<lparr>resp_head = send_headers 200 ''OK'' (Some ''text/plain'') (length ''hello'') None,
          resp_body = ''hello''\<rparr>"
    by (simp only: p)
  from b d have y: "api_download srv_config srv_world ''/d''
       = reply 404 ''Not Found'' (Some ''text/plain; charset=utf-8'') None ''Not found''"
    by blast
  from c g go have z: "api_download srv_config busy_world ''/f.txt''
       = reply 500 ''Error'' (Some ''text/plain; charset=utf-8'') None ''Error''"
    by blast
  from f fo x g go z d y show ?thesis by blast
qed

text \<open>
  The claim as stated fails: with no descriptor free, \<^verbatim>\<open>stat\<close> finds the file
  \<^verbatim>\<open>/srv/f.txt\<close>, which is no directory, and the answer is \<^verbatim>\<open>500\<close>, not \<^verbatim>\<open>200\<close>.
\<close>

theorem api_download_open_fails:
  "fs_stat busy_world (join_path (g_root srv_config) ''/f.txt'') = Some (File ''hello'')
   \<and> api_download srv_config busy_world ''/f.txt''
       = reply 500 ''Error'' (Some ''text/plain; charset=utf-8'') None ''Error''
   \<and> prefix ''HTTP/1.1 500 '' (resp_head (api_download srv_config busy_world ''/f.txt''))"
  by (simp add: eval_defs)

section \<open>Path lookup under changes of the file system\<close>

lemma node_at_delete_other: "p \<noteq> q \<Longrightarrow> node_at (AList.delete q fs) p = node_at fs p"
  by (simp add: node_at_def)

lemma node_at_delete_same: "q \<noteq> [] \<Longrightarrow> node_at (AList.delete q fs) q = None"
  by (simp add: node_at_def AList.delete_conv')

lemma node_at_root: "node_at fs [] = Some Dir"
  by (simp add: node_at_def)

lemma walk_delete_link:
  "node_at fs q = Some (Symlink t) \<Longrightarrow> \<not> follow \<Longrightarrow>
   walk n (AList.delete q fs) follow cur cs = None
   \<or> walk n (AList.delete q fs) follow cur cs = walk n fs follow cur cs"
proof (induction n fs follow cur cs rule: walk.induct)
  case (1 n fs follow cur)
  then show ?case by simp
next
  case (2 n fs follow cur c cs)
  note l = "2.prems"(1) and nf = "2.prems"(2)
  from l have q: "q \<noteq> []" by (auto simp: node_at_def)
  have same: "\<And>p. p \<noteq> q \<Longrightarrow> node_at (AList.delete q fs) p = node_at fs p"
    by (simp add: node_at_delete_other)
  have gone: "node_at (AList.delete q fs) q = None"
    using q by (simp add: node_at_delete_same)
  show ?case
  proof (cases "node_at fs cur = Some Dir")
    case False
    with same gone have "node_at (AList.delete q fs) cur \<noteq> Some Dir"
      by (cases "cur = q") auto
    then show ?thesis by simp
  next
    case d0: True
    with l have "cur \<noteq> q" by auto
    with d0 same have d: "node_at (AList.delete q fs) cur = Some Dir" by simp
    show ?thesis
    proof (cases "cur @ [c] = q")
      case True
      show ?thesis
      proof (cases cs)
        case Nil
        with True d d0 gone l nf show ?thesis by simp
      next
        case (Cons c' cs')
        with True d gone show ?thesis by simp
      qed
    next
      case False
      then have e: "node_at (AList.delete q fs) (cur @ [c]) = node_at fs (cur @ [c])"
        by (rule same)
      show ?thesis
      proof (cases "node_at fs (cur @ [c])")
        case None
        with e d d0 "2.IH" l nf show ?thesis by simp
      next
        case (Some nd)
        with e d d0 "2.IH" l nf show ?thesis
          by (cases nd; cases n) auto
      qed
    qed
  qed
qed

lemma dirlink_Dir: "dirlink x = Some Dir \<longleftrightarrow> x = Some Dir"
  by (auto simp: dirlink_def split: option.splits node.splits)

lemma dirlink_Symlink: "dirlink x = Some (Symlink t) \<longleftrightarrow> x = Some (Symlink t)"
  by (auto simp: dirlink_def split: option.splits node.splits)

lemma dirlink_File: "dirlink x \<noteq> Some (File c)"
  by (auto simp: dirlink_def split: option.splits node.splits)

lemma case_dirlink:
  "(case x of Some (Symlink t) \<Rightarrow> A t | _ \<Rightarrow> B)
     = (case dirlink x of Some (Symlink t) \<Rightarrow> A t | _ \<Rightarrow> B)"
  by (auto simp: dirlink_def split: option.splits node.splits)

lemma walk_dirlink:
  "walk n fs follow cur (c # cs) =
     (if dirlink (node_at fs cur) \<noteq> Some Dir then None
      else case dirlink (node_at fs (cur @ [c])) of
        Some (Symlink t) \<Rightarrow>
          if cs = [] \<and> \<not> follow then Some (cur @ [c])
          else (case n of 0 \<Rightarrow> None | Suc m \<Rightarrow> walk m fs follow [] (t @ cs))
      | _ \<Rightarrow> walk n fs follow (cur @ [c]) cs)"
  by (simp add: dirlink_Dir case_dirlink [symmetric])

lemma walk_same_shape:
  assumes "\<And>p. dirlink (node_at fs' p) = dirlink (node_at fs p)"
  shows "walk n fs' follow cur cs = walk n fs follow cur cs"
  using assms
proof (induction n fs follow cur cs rule: walk.induct)
  case (1 n fs follow cur)
  then show ?case by simp
next
  case (2 n fs follow cur c cs)
  note sh = "2.prems"
  show ?case
  proof (cases "node_at fs cur = Some Dir")
    case False
    then show ?thesis by (simp add: walk_dirlink sh dirlink_Dir del: walk.simps)
  next
    case d: True
    show ?thesis
    proof (cases "node_at fs (cur @ [c])")
      case None
      with d "2.IH" sh show ?thesis
        by (simp add: walk_dirlink dirlink_Dir del: walk.simps) (simp add: dirlink_def)
    next
      case (Some nd)
      with d "2.IH" sh show ?thesis
        by (cases nd; cases n)
           (simp_all add: walk_dirlink dirlink_Dir del: walk.simps, simp_all add: dirlink_def)
    qed
  qed
qed



lemma node_at_snoc:
  "node_at (fs @ [(q, v)]) p = (case node_at fs p of Some x \<Rightarrow> Some x
                                 | None \<Rightarrow> if p = q then Some v else None)"
  by (auto simp: node_at_def map_add_def split: option.splits)

lemma node_at_update:
  "q \<noteq> [] \<Longrightarrow> node_at (AList.update q v fs) p = (if p = q then Some v else node_at fs p)"
  by (simp add: node_at_def AList.update_conv')

lemma reply_201_not_others:
  "reply 500 ''Internal'' (Some ''text/plain'') None ''Failed'' \<noteq> reply 201 ''Created'' (Some ''text/plain'') None ''Created''"
  "reply 500 ''Internal'' (Some ''text/plain'') None ''Write failed'' \<noteq> reply 201 ''Created'' (Some ''text/plain'') None ''Created''"
  "reply 400 ''Bad Request'' (Some ''text/plain'') None ''No body'' \<noteq> reply 201 ''Created'' (Some ''text/plain'') None ''Created''"
  by (simp_all add: reply_def)


section \<open>Delete\<close>

text \<open>
  C10 (delete does not follow links).  When \<^verbatim>\<open>lstat\<close> of the resolved path finds a
  symbolic link, whatever it points to, \<^verbatim>\<open>api_delete\<close> unlinks it and answers
  \<^verbatim>\<open>204 No Content\<close>: afterwards the path no longer exists, and every other node
  of the file system, the link's target among them, is as before.
\<close>

theorem api_delete_symlink:
  assumes "fs_lstat w (join_path (g_root cfg) reqpath) = Some (Symlink t)"
  shows "\<exists>q. resolve w False (join_path (g_root cfg) reqpath) = Some q
           \<and> api_delete cfg w reqpath
               = (\<lparr>resp_head = send_headers 204 ''No Content'' None 0 None, resp_body = []\<rparr>,
                  w\<lparr>files := AList.delete q (files w)\<rparr>)
           \<and> fs_lstat (snd (api_delete cfg w reqpath)) (join_path (g_root cfg) reqpath) = None
           \<and> (\<forall>p. p \<noteq> q \<longrightarrow>
                 node_at (files (snd (api_delete cfg w reqpath))) p = node_at (files w) p)"
proof -
  define fs where "fs = join_path (g_root cfg) reqpath"
  from assms obtain q where r: "resolve w False fs = Some q"
    and n: "node_at (files w) q = Some (Symlink t)"
    by (auto simp: fs_lstat_def fs_def split: option.splits)
  define w' where "w' = w\<lparr>files := AList.delete q (files w)\<rparr>"
  from r n have u: "fs_unlink w fs = (True, w')"
    by (simp add: fs_unlink_def w'_def)
  from assms u have a: "api_delete cfg w reqpath
      = (\<lparr>resp_head = send_headers 204 ''No Content'' None 0 None, resp_body = []\<rparr>, w')"
    by (simp add: api_delete_def fs_def [symmetric] S_ISDIR_def)
  from n have q: "q \<noteq> []" by (auto simp: node_at_def)
  from r obtain c0 where ne: "fs = c0 # tl fs" by (cases fs) (auto simp: resolve_def)
  have "resolve w' False fs = None \<or> resolve w' False fs = Some q"
    using walk_delete_link [OF n, of False SYMLOOP_MAX
        "if c0 = CHR ''/'' then [] else cwd w" "strtok fs CHR ''/''"] r ne
    by (cases fs) (auto simp: resolve_def w'_def)
  then have g: "fs_lstat w' fs = None"
    using q by (auto simp: fs_lstat_def w'_def node_at_delete_same)
  have o: "\<forall>p. p \<noteq> q \<longrightarrow> node_at (files w') p = node_at (files w) p"
    by (simp add: w'_def node_at_delete_other)
  from r a g o show ?thesis
    unfolding fs_def w'_def by auto
qed

theorem api_delete_symlink_witness:
  "fs_lstat srv_world (join_path (g_root srv_config) ''/l'') = Some (Symlink [''srv'', ''d''])
   \<and> resolve srv_world False (join_path (g_root srv_config) ''/l'') = Some [''srv'', ''l'']
   \<and> fst (api_delete srv_config srv_world ''/l'')
       = \<lparr>resp_head = send_headers 204 ''No Content'' None 0 None, resp_body = []\<rparr>
   \<and> fs_lstat (snd (api_delete srv_config srv_world ''/l''))
        (join_path (g_root srv_config) ''/l'') = None
   \<and> node_at (files (snd (api_delete srv_config srv_world ''/l''))) [''srv'', ''d'']
       = node_at (files srv_world) [''srv'', ''d'']"
proof -
  have h: "fs_lstat srv_world (join_path (g_root srv_config) ''/l'')
             = Some (Symlink [''srv'', ''d''])"
    by (simp add: eval_defs)
  have r: "resolve srv_world False (join_path (g_root srv_config) ''/l'') = Some [''srv'', ''l'']"
    by (simp add: eval_defs)
  from api_delete_symlink [OF h] r show ?thesis
    using h by auto
qed

section \<open>Upload and download\<close>

text \<open>
  C3 (upload, then download).  When uploading the non-empty bytes \<open>B\<close> to the
  client path \<open>P\<close> is answered by \<^verbatim>\<open>201 Created\<close>, downloading \<open>P\<close> from the
  file system the upload left is answered by \<^verbatim>\<open>200 OK\<close> with body \<open>B\<close> and a
  \<^verbatim>\<open>Content-Length\<close> of the length of \<open>B\<close>.
\<close>

theorem upload_download_roundtrip:
  assumes b: "body req = Some B" and ne: "B \<noteq> []"
    and u: "api_upload cfg w P req = (reply 201 ''Created'' (Some ''text/plain'') None ''Created'', w')"
  shows "api_download cfg w' P
           = \<lparr>resp_head = send_headers 200 ''OK'' (Some (content_type (join_path (g_root cfg) P)))
                            (length B) None,
              resp_body = B\<rparr>"
proof -
  define fs where "fs = join_path (g_root cfg) P"
  define w1 where "w1 = (case strrchr (take (PATH_MAX - 1) fs) CHR ''/'' of
                       None \<Rightarrow> w
                     | Some slash \<Rightarrow>
                         (let tmp = take slash (take (PATH_MAX - 1) fs) in
                          mkdirs w (if starts_slash tmp then ''/'' else [])
                            (strtok (if starts_slash tmp then tl tmp else tmp) CHR ''/'')))"
  from u b ne obtain fd w2 where o: "fs_open_trunc w1 fs = (Some fd, w2)"
    and wr: "fs_write w2 fd B = (length B, w')"
    by (auto simp: api_upload_def Let_def fs_def w1_def reply_201_not_others
        split: option.splits prod.splits if_splits)
  from o have free: "fd_free w1 \<noteq> 0"
    by (auto simp: fs_open_trunc_def split: if_splits)
  from o obtain q where r: "resolve w1 True fs = Some q"
    by (auto simp: fs_open_trunc_def split: option.splits if_splits)
  with o free have fd: "fd = q"
    by (auto simp: fs_open_trunc_def split: option.splits node.splits)
  from o r free have nf: "node_at (files w1) q = None \<or> (\<exists>c. node_at (files w1) q = Some (File c))"
    by (auto simp: fs_open_trunc_def split: option.splits node.splits)
  then have q: "q \<noteq> []" by (auto simp: node_at_def)
  from o r free have f2: "files w2 = files w1 @ [(q, File [])] \<or> files w2 = AList.update q (File []) (files w1)"
    and c2: "cwd w2 = cwd w1" and d2: "fd_free w2 = fd_free w1"
    by (auto simp: fs_open_trunc_def split: option.splits node.splits)
  from wr fd have f3: "files w' = AList.update q (File B) (files w2)" and c3: "cwd w' = cwd w2"
    and d3: "fd_free w' = fd_free w2"
    by (auto simp: fs_write_def Let_def min_def split: if_splits)
  have at: "\<And>p. node_at (files w') p = (if p = q then Some (File B) else node_at (files w1) p)"
    using f2 f3 q nf by (auto simp: node_at_update node_at_snoc split: option.splits)
  have sh: "\<And>p. dirlink (node_at (files w') p) = dirlink (node_at (files w1) p)"
    using nf by (auto simp: at dirlink_def)
  have "resolve w' True fs = resolve w1 True fs"
    using walk_same_shape [OF sh] c2 c3 by (simp add: resolve_def split: list.splits)
  with r at have st: "fs_stat w' fs = Some (File B)"
    by (simp add: fs_stat_def)
  moreover from free d2 d3 have "fd_free w' \<noteq> 0" by simp
  ultimately show ?thesis
    by (simp add: api_download_def fs_def [symmetric] S_ISDIR_def fs_open_read_def st_size_def)
qed

theorem upload_download_roundtrip_witness:
  "body hi_req = Some ''hi'' \<and> ''hi'' \<noteq> []
   \<and> api_upload srv_config srv_world ''/new/hi.txt'' hi_req
       = (reply 201 ''Created'' (Some ''text/plain'') None ''Created'', hi_world)
   \<and> api_download srv_config hi_world ''/new/hi.txt''
       = \<lparr>resp_head = send_headers 200 ''OK''
                        (Some (content_type (join_path (g_root srv_config) ''/new/hi.txt'')))
                        (length ''hi'') None,
          resp_body = ''hi''\<rparr>"
proof -
  have b: "body hi_req = Some ''hi''" by (simp add: hi_req_def)
  have ne: "''hi'' \<noteq> []" by simp
  have u: "api_upload srv_config srv_world ''/new/hi.txt'' hi_req
       = (reply 201 ''Created'' (Some ''text/plain'') None ''Created'', hi_world)"
    by (simp add: eval_defs hi_req_def hi_world_def)
  from upload_download_roundtrip [OF b ne u] b ne u show ?thesis by blast
qed


section \<open>Tokens\<close>

lemma toks_append_delim:
  "toks d cur (xs @ d # ys) = toks d cur xs @ toks d [] ys"
  by (induction xs arbitrary: cur) auto

lemma toks_plain: "d \<notin> set xs \<Longrightarrow> cur @ xs \<noteq> [] \<Longrightarrow> toks d cur xs = [cur @ xs]"
  by (induction xs arbitrary: cur) auto

lemma toks_tokens: "d \<notin> set cur \<Longrightarrow> t \<in> set (toks d cur s) \<Longrightarrow> t \<noteq> [] \<and> d \<notin> set t"
proof (induction s arbitrary: cur)
  case Nil
  then show ?case by (auto split: if_splits)
next
  case (Cons a s)
  show ?case
  proof (cases "a = d")
    case True
    with Cons.prems Cons.IH [of "[]"] show ?thesis by (auto split: if_splits)
  next
    case False
    with Cons.prems Cons.IH [of "cur @ [a]"] show ?thesis by simp
  qed
qed

lemma strtok_tokens: "t \<in> set (strtok s d) \<Longrightarrow> t \<noteq> [] \<and> d \<notin> set t"
  unfolding strtok_def using toks_tokens [of d "[]" t s] by simp

lemma strtok_snoc:
  assumes "accum = [] \<or> last accum = d" "t \<noteq> []" "d \<notin> set t"
  shows "strtok (accum @ t @ [d]) d = strtok accum d @ [t]"
proof (cases "accum = []")
  case True
  with assms show ?thesis
    using toks_append_delim [of d "[]" t "[]"] by (simp add: strtok_def toks_plain)
next
  case False
  with assms obtain a where a: "accum = a @ [d]" by (metis append_butlast_last_id)
  have "strtok (accum @ t @ [d]) d = toks d [] (a @ d # (t @ [d]))"
    by (simp add: strtok_def a)
  also have "\<dots> = toks d [] a @ toks d [] (t @ d # [])"
    by (simp add: toks_append_delim)
  also have "toks d [] (t @ d # []) = [t]"
    using assms by (simp add: toks_append_delim toks_plain)
  also have "toks d [] a = strtok accum d"
    using toks_append_delim [of d "[]" a "[]"] by (simp add: strtok_def a)
  finally show ?thesis .
qed

section \<open>Segments of a resolved path\<close>

text \<open>
  The second half of C1 holds: whatever the root and the request path, no segment of
  the path \<^verbatim>\<open>join_path\<close> builds is \<^verbatim>\<open>..\<close>.
\<close>

lemma room_simps [simp]: "room [] = 0" "room (t # ts) = length t + 1 + room ts"
  by (simp_all add: room_def)

lemma room_toks: "room (toks d cur s) \<le> length cur + length s + 1"
proof (induction s arbitrary: cur)
  case Nil
  then show ?case by simp
next
  case (Cons c s)
  show ?case
  proof (cases "c = d")
    case True
    with Cons.IH [of "[]"] show ?thesis by simp
  next
    case False
    with Cons.IH [of "cur @ [c]"] show ?thesis by simp
  qed
qed

lemma strrchr_Some_split:
  "strrchr s c = Some i \<Longrightarrow> \<exists>post. s = take i s @ c # post \<and> i < length s"
proof (induction s arbitrary: i)
  case Nil
  then show ?case by simp
next
  case (Cons x xs)
  show ?case
  proof (cases "strrchr xs c")
    case None
    with Cons.prems show ?thesis by (auto split: if_splits)
  next
    case (Some j)
    with Cons.prems have i: "i = Suc j" by simp
    from Cons.IH [OF Some] obtain post where "xs = take j xs @ c # post" "j < length xs" by blast
    with i show ?thesis by (intro exI [of _ post]) simp
  qed
qed

lemma collapse_no_dotdot:
  assumes "fits b out rest" "b \<le> PATH_MAX - 1"
    "''..'' \<notin> set (strtok out CHR ''/'')"
    "\<forall>t \<in> set rest. CHR ''/'' \<notin> set t"
  shows "''..'' \<notin> set (strtok (collapse rest out) CHR ''/'')
         \<and> length (collapse rest out) \<le> b"
  using assms
proof (induction rest arbitrary: out)
  case Nil
  then show ?case by (auto simp: fits_def split: if_splits)
next
  case (Cons token rest)
  note f = Cons.prems(1) and b = Cons.prems(2) and q = Cons.prems(3) and sl = Cons.prems(4)
  define out' where "out' =
       (if token = ''..'' then
          (case strrchr out CHR ''/'' of Some i \<Rightarrow> take i out | None \<Rightarrow> out)
        else if token \<noteq> ''.'' \<and> token \<noteq> [] then
          (if out = [] then take (PATH_MAX - 1) token
           else take (PATH_MAX - 1) (out @ ''/'' @ token))
        else out)"
  have c: "collapse (token # rest) out = collapse rest out'" by (simp add: out'_def)
  have "fits b out' rest \<and> ''..'' \<notin> set (strtok out' CHR ''/'')"
  proof (cases "token = ''..''")
    case True
    show ?thesis
    proof (cases "strrchr out CHR ''/''")
      case None
      with True have "out' = out" by (simp add: out'_def)
      with f q show ?thesis by (auto simp: fits_def split: if_splits)
    next
      case (Some i)
      with True have o: "out' = take i out" by (simp add: out'_def)
      from strrchr_Some_split [OF Some] obtain post where
        p: "out = take i out @ CHR ''/'' # post" by blast
      have "strtok out CHR ''/'' = strtok (take i out) CHR ''/'' @ strtok post CHR ''/''"
        using toks_append_delim [of "CHR ''/''" "[]" "take i out" post] p
        by (simp add: strtok_def)
      with q have "''..'' \<notin> set (strtok out' CHR ''/'')" by (simp add: o)
      moreover have "length out' \<le> length out" by (simp add: o)
      with f have "fits b out' rest" by (auto simp: fits_def split: if_splits)
      ultimately show ?thesis by simp
    qed
  next
    case nd: False
    show ?thesis
    proof (cases "token \<noteq> ''.'' \<and> token \<noteq> []")
      case False
      with nd have "out' = out" by (auto simp: out'_def)
      with f q show ?thesis by (auto simp: fits_def split: if_splits)
    next
      case True
      from sl have ts: "CHR ''/'' \<notin> set token" by simp
      with True have st: "strtok token CHR ''/'' = [token]"
        using toks_plain [of "CHR ''/''" token "[]"] by (simp add: strtok_def)
      show ?thesis
      proof (cases "out = []")
        case e: True
        with f b have "length token \<le> PATH_MAX - 1" by (simp add: fits_def)
        with e True nd have o: "out' = token" by (simp add: out'_def)
        with f e True have "fits b out' rest" by (simp add: fits_def)
        with o st nd show ?thesis by simp
      next
        case ne: False
        with f b have "length (out @ ''/'' @ token) \<le> PATH_MAX - 1" by (simp add: fits_def)
        with ne True nd have o: "out' = out @ ''/'' @ token" by (simp add: out'_def)
        with f ne have "fits b out' rest" by (simp add: fits_def)
        moreover have "strtok out' CHR ''/'' = strtok out CHR ''/'' @ [token]"
          using toks_append_delim [of "CHR ''/''" "[]" out token] st
          by (simp add: strtok_def o)
        ultimately show ?thesis using q nd by simp
      qed
    qed
  qed
  with Cons.IH [of out'] b sl c show ?case by simp
qed

lemma join_path_no_dotdot: "''..'' \<notin> set (strtok (join_path root reqpath) CHR ''/'')"
proof -
  define decoded where "decoded = takeWhile (\<lambda>c. c \<noteq> CHR ''?'') (cstr (url_decode reqpath))"
  define p where "p = (case decoded of c # cs \<Rightarrow> if c = CHR ''/'' then cs else decoded | [] \<Rightarrow> decoded)"
  define tmp where "tmp = take (PATH_MAX - 1) ((if root \<noteq> [] then root else ''/'') @ ''/'' @ p)"
  define outbuf where "outbuf = collapse (strtok tmp CHR ''/'') []"
  have len: "length tmp \<le> PATH_MAX - 1" by (simp add: tmp_def)
  have sl: "\<forall>t \<in> set (strtok tmp CHR ''/''). CHR ''/'' \<notin> set t"
    using strtok_tokens by blast
  have e: "''..'' \<notin> set (strtok [] CHR ''/'')" by (simp add: strtok_def)
  have r: "room (strtok tmp CHR ''/'') \<le> length tmp + 1"
    using room_toks [of "CHR ''/''" "[]" tmp] by (simp add: strtok_def)
  have jp: "join_path root reqpath =
      (if outbuf = [] then ''/''
         else if (case root of c # _ \<Rightarrow> c = CHR ''/'' | [] \<Rightarrow> False)
              then (case outbuf of
                      c # _ \<Rightarrow> if c = CHR ''/'' then outbuf
                               else take (PATH_MAX - 1) (''/'' @ outbuf)
                    | [] \<Rightarrow> ''/'')
              else outbuf)"
    by (simp only: join_path_def Let_def decoded_def p_def tmp_def outbuf_def)
  have general: "''..'' \<notin> set (strtok outbuf CHR ''/'')"
    using collapse_no_dotdot [of "PATH_MAX - 1" "[]" "strtok tmp CHR ''/''"] len r e sl
    by (simp add: fits_def outbuf_def)
  show ?thesis
  proof (cases "outbuf = []")
    case True
    then show ?thesis by (simp add: jp strtok_def)
  next
    case ne: False
    show ?thesis
    proof (cases "case root of c # _ \<Rightarrow> c = CHR ''/'' | [] \<Rightarrow> False")
      case False
      with ne general show ?thesis by (simp add: jp)
    next
      case True
      then obtain root' where root: "root = CHR ''/'' # root'" by (auto split: list.splits)
      have "PATH_MAX - 1 > 0" by (simp add: PATH_MAX_def)
      then obtain tmp' where t: "tmp = CHR ''/'' # tmp'"
        by (cases "PATH_MAX - 1") (auto simp: tmp_def root)
      then have "strtok tmp CHR ''/'' = toks CHR ''/'' [] tmp'" by (simp add: strtok_def)
      then have "room (strtok tmp CHR ''/'') \<le> length tmp"
        using room_toks [of "CHR ''/''" "[]" tmp'] t by simp
      with len have "fits (PATH_MAX - 2) [] (strtok tmp CHR ''/'')"
        by (simp add: fits_def PATH_MAX_def)
      from collapse_no_dotdot [OF this _ e sl]
      have "length outbuf \<le> PATH_MAX - 2" by (simp add: outbuf_def PATH_MAX_def)
      then have tk: "take (PATH_MAX - 1) (''/'' @ outbuf) = ''/'' @ outbuf"
        by (simp add: PATH_MAX_def)
      have "strtok (''/'' @ outbuf) CHR ''/'' = strtok outbuf CHR ''/''"
        by (simp add: strtok_def)
      with general tk ne True show ?thesis
        by (auto simp: jp split: list.splits)
    qed
  qed
qed


section \<open>Creating directories\<close>

subsection \<open>walk under growth\<close>

lemma walk_snoc:
  assumes "walk n fs follow cur cs = Some q" "node_at fs q' = None"
    "node_at fs q \<noteq> None \<or> q = q'"
  shows "walk n (fs @ [(q', Dir)]) follow cur cs = Some q"
  using assms
proof (induction n fs follow cur cs rule: walk.induct)
  case (1 n fs follow cur)
  then show ?case by simp
next
  case (2 n fs follow cur c cs)
  note w = "2.prems"(1) and a = "2.prems"(2) and e = "2.prems"(3)
  from w have d: "node_at fs cur = Some Dir" by (auto split: if_splits)
  then have d': "node_at (fs @ [(q', Dir)]) cur = Some Dir" by (simp add: node_at_snoc)
  show ?case
  proof (cases "node_at fs (cur @ [c])")
    case None
    show ?thesis
    proof (cases cs)
      case Nil
      with None w d have "q = cur @ [c]" by simp
      with None e have "cur @ [c] = q'" by auto
      with Nil d' a \<open>q = cur @ [c]\<close> show ?thesis by (simp add: node_at_snoc)
    next
      case (Cons c' cs')
      with None w d show ?thesis by simp
    qed
  next
    case (Some nd)
    then have s': "node_at (fs @ [(q', Dir)]) (cur @ [c]) = Some nd" by (simp add: node_at_snoc)
    from Some s' d d' w a e "2.IH" show ?thesis
      by (cases nd; cases n) (auto split: if_splits)
  qed
qed

lemma walk_prefix:
  "\<not> follow' \<Longrightarrow> walk n fs follow cur (xs @ y # ys) = Some r \<Longrightarrow>
   \<exists>q. walk n fs follow' cur xs = Some q \<and> node_at fs q \<noteq> None"
proof (induction n fs follow' cur xs rule: walk.induct)
  case (1 n fs follow' cur)
  then show ?case by (auto split: if_splits)
next
  case (2 n fs follow' cur c cs)
  note nf = "2.prems"(1) and w = "2.prems"(2)
  from w have d: "node_at fs cur = Some Dir" by (auto split: if_splits)
  show ?case
  proof (cases "node_at fs (cur @ [c])")
    case None
    with d w nf "2.IH" show ?thesis by simp
  next
    case (Some nd)
    with d w nf "2.IH" show ?thesis
      by (cases nd; cases n; cases cs) (auto split: if_splits)
  qed
qed


subsection \<open>mkdir on components\<close>

lemma cwd_mkdir_at [simp]: "cwd (mkdir_at w start comps) = cwd w"
  by (simp add: mkdir_at_def split: option.splits)

lemma snd_fs_mkdir:
  "snd (fs_mkdir w (c # rest))
     = mkdir_at w (if c = CHR ''/'' then [] else cwd w) (strtok (c # rest) CHR ''/'')"
  by (simp add: fs_mkdir_def mkdir_at_def resolve_def split: option.splits)

lemma mkdir_at_cases:
  "mkdir_at w start comps = w
   \<or> (\<exists>q. walk SYMLOOP_MAX (files w) False start comps = Some q
          \<and> node_at (files w) q = None
          \<and> mkdir_at w start comps = w\<lparr>files := files w @ [(q, Dir)]\<rparr>)"
  by (auto simp: mkdir_at_def split: option.splits)

lemma grown_neq: "w\<lparr>files := files w @ [x]\<rparr> \<noteq> w"
proof
  assume "w\<lparr>files := files w @ [x]\<rparr> = w"
  then have "files (w\<lparr>files := files w @ [x]\<rparr>) = files w" by simp
  then show False by simp
qed

lemma mkdir_at_fixed_iff:
  "mkdir_at w start comps = w \<longleftrightarrow>
     (case walk SYMLOOP_MAX (files w) False start comps of
        None \<Rightarrow> True | Some q \<Rightarrow> node_at (files w) q \<noteq> None)"
  by (auto simp: mkdir_at_def grown_neq split: option.splits)

lemma mkdir_at_idem: "mkdir_at (mkdir_at w start comps) start comps = mkdir_at w start comps"
proof -
  consider (same) "mkdir_at w start comps = w"
    | (new) q where "walk SYMLOOP_MAX (files w) False start comps = Some q"
        "node_at (files w) q = None"
        "mkdir_at w start comps = w\<lparr>files := files w @ [(q, Dir)]\<rparr>"
    using mkdir_at_cases [of w start comps] by blast
  then show ?thesis
  proof cases
  case same
  then show ?thesis by simp
next
  case (new q)
  from walk_snoc [OF new(1) new(2)]
  have "walk SYMLOOP_MAX (files w @ [(q, Dir)]) False start comps = Some q" by simp
  moreover have "node_at (files w @ [(q, Dir)]) q \<noteq> None" by (simp add: node_at_snoc new(2))
  ultimately have "mkdir_at (w\<lparr>files := files w @ [(q, Dir)]\<rparr>) start comps
      = w\<lparr>files := files w @ [(q, Dir)]\<rparr>"
    by (simp add: mkdir_at_fixed_iff)
  with new(3) show ?thesis by simp
qed
qed

lemma mkdir_at_stable:
  assumes f: "mkdir_at w start a = w" and b: "b \<noteq> []"
  shows "mkdir_at (mkdir_at w start (a @ b)) start a = mkdir_at w start (a @ b)"
proof -
  consider (same) "mkdir_at w start (a @ b) = w"
    | (new) q' where "walk SYMLOOP_MAX (files w) False start (a @ b) = Some q'"
        "node_at (files w) q' = None"
        "mkdir_at w start (a @ b) = w\<lparr>files := files w @ [(q', Dir)]\<rparr>"
    using mkdir_at_cases [of w start "a @ b"] by blast
  then show ?thesis
  proof cases
  case same
  with f show ?thesis by simp
next
  case (new q')
  from b obtain y ys where yb: "b = y # ys" by (cases b) auto
  from walk_prefix [of False SYMLOOP_MAX "files w" False start a y ys q'] new(1) yb
  obtain q where q: "walk SYMLOOP_MAX (files w) False start a = Some q"
    "node_at (files w) q \<noteq> None" by auto
  from walk_snoc [OF q(1) new(2)] q(2)
  have "walk SYMLOOP_MAX (files w @ [(q', Dir)]) False start a = Some q" by simp
  moreover from q(2) have "node_at (files w @ [(q', Dir)]) q \<noteq> None"
    by (auto simp: node_at_snoc split: option.splits)
  ultimately have "mkdir_at (w\<lparr>files := files w @ [(q', Dir)]\<rparr>) start a
      = w\<lparr>files := files w @ [(q', Dir)]\<rparr>"
    by (simp add: mkdir_at_fixed_iff)
  with new(3) show ?thesis by simp
qed
qed

lemma mkdirs_at_stable:
  "mkdir_at w start a = w \<Longrightarrow>
   mkdir_at (mkdirs_at w start (a @ e) ts) start a = mkdirs_at w start (a @ e) ts"
proof (induction ts arbitrary: w e)
  case Nil
  then show ?case by simp
next
  case (Cons t ts)
  have "mkdir_at (mkdir_at w start (a @ (e @ [t]))) start a = mkdir_at w start (a @ (e @ [t]))"
    using Cons.prems by (rule mkdir_at_stable) simp
  from Cons.IH [OF this, of "e @ [t]"] show ?case by simp
qed

lemma mkdirs_at_idem:
  "mkdirs_at (mkdirs_at w start pre ts) start pre ts = mkdirs_at w start pre ts"
proof (induction ts arbitrary: w pre)
  case Nil
  then show ?case by simp
next
  case (Cons t ts)
  define w1 where "w1 = mkdir_at w start (pre @ [t])"
  define F where "F = mkdirs_at w1 start (pre @ [t]) ts"
  have "mkdir_at w1 start (pre @ [t]) = w1" by (simp add: w1_def mkdir_at_idem)
  from mkdirs_at_stable [OF this, of "[]" ts] have "mkdir_at F start (pre @ [t]) = F"
    by (simp add: F_def)
  moreover have "mkdirs_at F start (pre @ [t]) ts = F"
    unfolding F_def by (rule Cons.IH)
  ultimately show ?case by (simp add: F_def w1_def)
qed

lemma mkdirs_as_components:
  assumes "\<forall>t \<in> set ts. t \<noteq> [] \<and> CHR ''/'' \<notin> set t" "accum = [] \<or> last accum = CHR ''/''"
  shows "mkdirs w accum ts
           = mkdirs_at w (if starts_slash accum then [] else cwd w) (strtok accum CHR ''/'') ts"
  using assms
proof (induction ts arbitrary: w accum)
  case Nil
  then show ?case by simp
next
  case (Cons t ts)
  from Cons.prems have t: "t \<noteq> []" "CHR ''/'' \<notin> set t" by auto
  define a where "a = accum @ t @ ''/''"
  from t obtain c rest where cr: "a = c # rest" "(c = CHR ''/'') = starts_slash accum"
    by (cases accum; cases t) (auto simp: a_def starts_slash_def)
  have st: "strtok a CHR ''/'' = strtok accum CHR ''/'' @ [t]"
    unfolding a_def using strtok_snoc [OF Cons.prems(2) t] by simp
  have ss: "starts_slash a = starts_slash accum"
    using cr by (simp add: starts_slash_def)
  have la: "a = [] \<or> last a = CHR ''/''" by (simp add: a_def)
  have "snd (fs_mkdir w a)
          = mkdir_at w (if starts_slash accum then [] else cwd w) (strtok accum CHR ''/'' @ [t])"
    using snd_fs_mkdir [of w c rest] cr st by simp
  moreover have "mkdirs (snd (fs_mkdir w a)) a ts
      = mkdirs_at (snd (fs_mkdir w a)) (if starts_slash a then [] else cwd (snd (fs_mkdir w a)))
          (strtok a CHR ''/'') ts"
    using Cons.prems(1) la by (intro Cons.IH) auto
  ultimately show ?case
    by (simp add: a_def [symmetric] ss st)
qed

lemma cwd_mkdirs_at [simp]: "cwd (mkdirs_at w start pre ts) = cwd w"
  by (induction ts arbitrary: w pre) simp_all


subsection \<open>What mkdir creates\<close>

lemma grows_refl: "grows fs fs"
  by (simp add: grows_def)

lemma grows_trans: "grows a b \<Longrightarrow> grows b c \<Longrightarrow> grows a c"
  unfolding grows_def by metis

lemma grows_snoc: "grows fs (fs @ [(q, Dir)])"
  by (auto simp: grows_def node_at_snoc split: option.splits)

lemma grows_mkdir_at: "grows (files w) (files (mkdir_at w start comps))"
  using mkdir_at_cases [of w start comps] by (auto simp: grows_refl grows_snoc)

lemma grows_mkdirs_at: "grows (files w) (files (mkdirs_at w start pre ts))"
proof (induction ts arbitrary: w pre)
  case Nil
  then show ?case by (simp add: grows_refl)
next
  case (Cons t ts)
  from grows_mkdir_at [of w start "pre @ [t]"] Cons.IH [of "mkdir_at w start (pre @ [t])" "pre @ [t]"]
  show ?case by (auto intro: grows_trans)
qed

lemma all_dirs_grows: "all_dirs fs cur cs \<Longrightarrow> grows fs fs' \<Longrightarrow> all_dirs fs' cur cs"
proof (induction cs arbitrary: cur)
  case Nil
  then show ?case by (auto simp: grows_def) (metis option.distinct(1))
next
  case (Cons c cs)
  from Cons.prems have "node_at fs cur = Some Dir" by simp
  with Cons.prems(2) have "node_at fs' cur = Some Dir"
    unfolding grows_def by (metis option.distinct(1))
  with Cons show ?case by simp
qed

lemma clear_way_grows: "clear_way fs cur cs \<Longrightarrow> grows fs fs' \<Longrightarrow> clear_way fs' cur cs"
proof (induction cs arbitrary: cur)
  case Nil
  then show ?case by simp
next
  case (Cons c cs)
  from Cons.prems(2) have "node_at fs' (cur @ [c]) = node_at fs (cur @ [c])
      \<or> node_at fs' (cur @ [c]) = Some Dir"
    unfolding grows_def by metis
  with Cons show ?case by auto
qed

lemma all_dirs_snoc:
  "all_dirs fs cur pre \<Longrightarrow> node_at fs (cur @ pre @ [t]) = Some Dir \<Longrightarrow> all_dirs fs cur (pre @ [t])"
  by (induction pre arbitrary: cur) auto

lemma all_dirs_end: "all_dirs fs cur cs \<Longrightarrow> node_at fs (cur @ cs) = Some Dir"
proof (induction cs arbitrary: cur)
  case Nil
  then show ?case by simp
next
  case (Cons c cs)
  from Cons.IH [of "cur @ [c]"] Cons.prems show ?case by simp
qed

lemma walk_plain:
  "all_dirs fs cur pre \<Longrightarrow>
   node_at fs (cur @ pre @ [t]) = None \<or> node_at fs (cur @ pre @ [t]) = Some Dir \<Longrightarrow>
   walk n fs follow cur (pre @ [t]) = Some (cur @ pre @ [t])"
proof (induction pre arbitrary: cur)
  case Nil
  then show ?case by auto
next
  case (Cons c pre)
  from Cons.prems have d: "node_at fs cur = Some Dir" "all_dirs fs (cur @ [c]) pre" by auto
  then have "node_at fs (cur @ [c]) = Some Dir" by (cases pre) auto
  with d Cons.IH [of "cur @ [c]"] Cons.prems(2) show ?case by simp
qed

lemma walk_dirs: "all_dirs fs cur cs \<Longrightarrow> walk n fs follow cur cs = Some (cur @ cs)"
proof (cases cs rule: rev_cases)
  case Nil
  then show ?thesis by simp
next
  case (snoc pre t)
  assume a: "all_dirs fs cur cs"
  have "all_dirs fs cur pre" using a unfolding snoc
    by (induction pre arbitrary: cur) auto
  moreover have "node_at fs (cur @ pre @ [t]) = Some Dir"
    using all_dirs_end [OF a] snoc by simp
  ultimately show ?thesis unfolding snoc by (simp add: walk_plain)
qed

lemma mkdirs_at_creates:
  "all_dirs (files w) start pre \<Longrightarrow> clear_way (files w) (start @ pre) ts \<Longrightarrow>
   all_dirs (files (mkdirs_at w start pre ts)) start (pre @ ts)"
proof (induction ts arbitrary: w pre)
  case Nil
  then show ?case by simp
next
  case (Cons t ts)
  define q where "q = start @ pre @ [t]"
  define w1 where "w1 = mkdir_at w start (pre @ [t])"
  from Cons.prems(2) have nq: "node_at (files w) q = None \<or> node_at (files w) q = Some Dir"
    and cw: "clear_way (files w) q ts"
    by (simp_all add: q_def)
  from walk_plain [OF Cons.prems(1), of t SYMLOOP_MAX False] nq
  have wk: "walk SYMLOOP_MAX (files w) False start (pre @ [t]) = Some q" by (simp add: q_def)
  have "node_at (files w1) q = Some Dir"
    using nq wk by (auto simp: w1_def mkdir_at_def node_at_snoc)
  moreover have g: "grows (files w) (files w1)" unfolding w1_def by (rule grows_mkdir_at)
  moreover from Cons.prems(1) g have "all_dirs (files w1) start pre" by (rule all_dirs_grows)
  ultimately have a1: "all_dirs (files w1) start (pre @ [t])"
    by (simp add: all_dirs_snoc q_def)
  from cw g have "clear_way (files w1) (start @ pre @ [t]) ts"
    unfolding q_def by (rule clear_way_grows)
  with Cons.IH [of w1 "pre @ [t]"] a1 show ?case by (simp add: w1_def)
qed

lemma join_path_bounds:
  "join_path root reqpath \<noteq> [] \<and> length (join_path root reqpath) \<le> PATH_MAX - 1"
proof -
  define decoded where "decoded = takeWhile (\<lambda>c. c \<noteq> CHR ''?'') (cstr (url_decode reqpath))"
  define p where "p = (case decoded of c # cs \<Rightarrow> if c = CHR ''/'' then cs else decoded | [] \<Rightarrow> decoded)"
  define tmp where "tmp = take (PATH_MAX - 1) ((if root \<noteq> [] then root else ''/'') @ ''/'' @ p)"
  define outbuf where "outbuf = collapse (strtok tmp CHR ''/'') []"
  have len: "length tmp \<le> PATH_MAX - 1" by (simp add: tmp_def)
  have sl: "\<forall>t \<in> set (strtok tmp CHR ''/''). CHR ''/'' \<notin> set t"
    using strtok_tokens by blast
  have e: "''..'' \<notin> set (strtok [] CHR ''/'')" by (simp add: strtok_def)
  have r: "room (strtok tmp CHR ''/'') \<le> length tmp + 1"
    using room_toks [of "CHR ''/''" "[]" tmp] by (simp add: strtok_def)
  have jp: "join_path root reqpath =
      (if outbuf = [] then ''/''
         else if (case root of c # _ \<Rightarrow> c = CHR ''/'' | [] \<Rightarrow> False)
              then (case outbuf of
                      c # _ \<Rightarrow> if c = CHR ''/'' then outbuf
                               else take (PATH_MAX - 1) (''/'' @ outbuf)
                    | [] \<Rightarrow> ''/'')
              else outbuf)"
    by (simp only: join_path_def Let_def decoded_def p_def tmp_def outbuf_def)
  have lo: "length outbuf \<le> PATH_MAX - 1"
    using collapse_no_dotdot [of "PATH_MAX - 1" "[]" "strtok tmp CHR ''/''"] len r e sl
    by (simp add: fits_def outbuf_def)
  have pm: "PATH_MAX - 1 > 0" by (simp add: PATH_MAX_def)
  show ?thesis
  proof (cases outbuf)
    case Nil
    with pm show ?thesis by (simp add: jp PATH_MAX_def)
  next
    case (Cons c rest)
    with lo pm show ?thesis by (auto simp: jp PATH_MAX_def split: list.splits)
  qed
qed

lemma strtok_skip_slash: "strtok (CHR ''/'' # s) CHR ''/'' = strtok s CHR ''/''"
  by (simp add: strtok_def)

lemma api_mkdir_components:
  "snd (api_mkdir cfg w reqpath)
     = mkdirs_at w (if starts_slash (join_path (g_root cfg) reqpath) then [] else cwd w) []
         (strtok (join_path (g_root cfg) reqpath) CHR ''/'')"
proof -
  define fs where "fs = join_path (g_root cfg) reqpath"
  have tk: "take (PATH_MAX - Suc 0) fs = fs" using join_path_bounds [of "g_root cfg" reqpath]
    by (simp add: fs_def)
  define accum where "accum = (if starts_slash fs then ''/'' else [])"
  define ts where "ts = strtok (if starts_slash fs then tl fs else fs) CHR ''/''"
  have tsf: "ts = strtok fs CHR ''/''"
    by (cases fs) (auto simp: ts_def starts_slash_def strtok_skip_slash)
  have tok: "\<forall>t \<in> set ts. t \<noteq> [] \<and> CHR ''/'' \<notin> set t"
    using strtok_tokens by (auto simp: ts_def)
  have la: "accum = [] \<or> last accum = CHR ''/''" by (simp add: accum_def)
  have e: "strtok accum CHR ''/'' = []" by (simp add: accum_def strtok_def)
  have ss: "starts_slash accum = starts_slash fs" by (simp add: accum_def starts_slash_def)
  have "snd (api_mkdir cfg w reqpath) = mkdirs w accum ts"
    by (simp add: api_mkdir_def Let_def fs_def [symmetric] tk accum_def ts_def)
  also have "\<dots> = mkdirs_at w (if starts_slash fs then [] else cwd w) [] ts"
    using mkdirs_as_components [OF tok la, of w] e ss by simp
  finally show ?thesis by (simp add: tsf fs_def)
qed


text \<open>
  C5 (mkdir), as the code has it.  \<^verbatim>\<open>api_mkdir\<close> answers \<^verbatim>\<open>201 Created\<close> whatever
  the path and the file system, and a second call on the same path leaves the file
  system exactly as the first call left it.  The call keeps every node and adds
  nothing but directories; and when each segment of the resolved path is absent or a
  directory, the resolved path is a directory after the call.
\<close>

theorem api_mkdir_semantics:
  "fst (api_mkdir cfg w reqpath) = reply 201 ''Created'' (Some ''text/plain'') None ''Created''
   \<and> fst (api_mkdir cfg (snd (api_mkdir cfg w reqpath)) reqpath)
       = reply 201 ''Created'' (Some ''text/plain'') None ''Created''
   \<and> snd (api_mkdir cfg (snd (api_mkdir cfg w reqpath)) reqpath) = snd (api_mkdir cfg w reqpath)
   \<and> grows (files w) (files (snd (api_mkdir cfg w reqpath)))
   \<and> (clear_path w (join_path (g_root cfg) reqpath) \<longrightarrow>
        fs_stat (snd (api_mkdir cfg w reqpath)) (join_path (g_root cfg) reqpath) = Some Dir)"
proof -
  define fs where "fs = join_path (g_root cfg) reqpath"
  define ts where "ts = strtok fs CHR ''/''"
  define start where "start = (if starts_slash fs then [] else cwd w)"
  define w' where "w' = snd (api_mkdir cfg w reqpath)"
  have c: "w' = mkdirs_at w start [] ts"
    by (simp add: w'_def api_mkdir_components fs_def ts_def start_def)
  have c2: "snd (api_mkdir cfg w' reqpath) = mkdirs_at w' start [] ts"
    by (simp add: api_mkdir_components fs_def ts_def start_def c)
  have idem: "snd (api_mkdir cfg w' reqpath) = w'"
    unfolding c2 unfolding c by (rule mkdirs_at_idem)
  have g: "grows (files w) (files w')" unfolding c by (rule grows_mkdirs_at)
  have st: "fs_stat w' fs = Some Dir" if cp: "clear_path w fs"
  proof -
    from cp have "all_dirs (files w) start []" "clear_way (files w) (start @ []) ts"
      by (simp_all add: clear_path_def start_def ts_def)
    then have a: "all_dirs (files w') start ([] @ ts)"
      unfolding c by (rule mkdirs_at_creates)
    then have wk: "walk SYMLOOP_MAX (files w') True start ts = Some (start @ ts)"
      and nd: "node_at (files w') (start @ ts) = Some Dir"
      using walk_dirs [of "files w'" start ts] all_dirs_end [of "files w'" start ts] by simp_all
    from join_path_bounds [of "g_root cfg" reqpath] obtain ch rest where f: "fs = ch # rest"
      by (cases fs) (auto simp: fs_def)
    have "cwd w' = cwd w" by (simp add: c)
    with f have "resolve w' True fs = walk SYMLOOP_MAX (files w') True start ts"
      by (simp add: resolve_def start_def starts_slash_def ts_def)
    with wk nd show ?thesis by (simp add: fs_stat_def)
  qed
  have "fst (api_mkdir cfg v reqpath) = reply 201 ''Created'' (Some ''text/plain'') None ''Created''"
    for v by (simp add: api_mkdir_def Let_def)
  with idem g st show ?thesis by (simp add: w'_def fs_def)
qed

theorem api_mkdir_semantics_witness:
  "clear_path srv_world (join_path (g_root srv_config) ''/a/b'')
   \<and> fs_stat srv_world (join_path (g_root srv_config) ''/a/b'') = None
   \<and> fs_stat (snd (api_mkdir srv_config srv_world ''/a/b''))
        (join_path (g_root srv_config) ''/a/b'') = Some Dir
   \<and> snd (api_mkdir srv_config (snd (api_mkdir srv_config srv_world ''/a/b'')) ''/a/b'')
       = snd (api_mkdir srv_config srv_world ''/a/b'')"
proof -
  have h: "clear_path srv_world (join_path (g_root srv_config) ''/a/b'')"
    by (simp add: eval_defs)
  have n: "fs_stat srv_world (join_path (g_root srv_config) ''/a/b'') = None"
    by (simp add: eval_defs)
  from api_mkdir_semantics [of srv_config srv_world "''/a/b''"] h n show ?thesis by blast
qed

text \<open>
  The claim as stated fails: the results of \<^verbatim>\<open>mkdir\<close> are ignored, so for a path
  below the regular file \<^verbatim>\<open>/srv/f.txt\<close> the answer is \<^verbatim>\<open>201\<close>, nothing is created
  and no directory is left at the resolved path.
\<close>

theorem api_mkdir_no_directory:
  "fst (api_mkdir srv_config srv_world ''/f.txt/x'')
     = reply 201 ''Created'' (Some ''text/plain'') None ''Created''
   \<and> snd (api_mkdir srv_config srv_world ''/f.txt/x'') = srv_world
   \<and> fs_stat (snd (api_mkdir srv_config srv_world ''/f.txt/x''))
        (join_path (g_root srv_config) ''/f.txt/x'') = None"
  by (simp add: eval_defs)


lemma api_mkdir_example:
  "files (snd (api_mkdir srv_config srv_world ''/a/b''))
     = files srv_world @ [([''srv'', ''a''], Dir), ([''srv'', ''a'', ''b''], Dir)]"
  by (simp add: eval_defs)

section \<open>Basic authentication\<close>

lemma strchr_None_iff: "strchr s c = None \<longleftrightarrow> c \<notin> set s"
  by (induction s) auto















section \<open>Malformed requests\<close>

lemma wtoks_nonspace: "\<forall>c \<in> set a. \<not> isspace c \<Longrightarrow> wtoks cur (a @ r) = wtoks (cur @ a) r"
  by (induction a arbitrary: cur) auto

lemma wtoks_skip: "wtoks [] s = wtoks [] (dropWhile isspace s)"
  by (induction s) auto

lemma wtoks_head:
  "wtoks [] s =
     (let s' = dropWhile isspace s;
          t = takeWhile (\<lambda>c. \<not> isspace c) s';
          r = dropWhile (\<lambda>c. \<not> isspace c) s'
      in if t = [] then [] else t # wtoks [] r)"
proof -
  define s' where "s' = dropWhile isspace s"
  define t where "t = takeWhile (\<lambda>c. \<not> isspace c) s'"
  define r where "r = dropWhile (\<lambda>c. \<not> isspace c) s'"
  have tr: "s' = t @ r" by (simp add: t_def r_def)
  have ns: "\<forall>c \<in> set t. \<not> isspace c" unfolding t_def by (auto dest: set_takeWhileD)
  have "wtoks [] s = wtoks [] s'" unfolding s'_def by (rule wtoks_skip)
  also have "\<dots> = wtoks t r" unfolding tr using wtoks_nonspace [OF ns, of "[]" r] by simp
  also have "\<dots> = (if t = [] then [] else t # wtoks [] r)"
  proof (cases r)
    case Nil
    then show ?thesis by simp
  next
    case (Cons c r')
    then have sp: "isspace c" unfolding r_def by (metis hd_dropWhile list.distinct(1) list.sel(1))
    show ?thesis
    proof (cases "t = []")
      case True
      then have "s' = c # r'" using tr Cons by simp
      moreover have "s' = [] \<or> \<not> isspace (hd s')"
        unfolding s'_def by (metis hd_dropWhile)
      ultimately show ?thesis using sp by simp
    next
      case False
      with Cons sp show ?thesis by simp
    qed
  qed
  finally show ?thesis by (simp add: Let_def s'_def t_def r_def)
qed

lemma scan_s_no_token: "ws_tokens s = [] \<Longrightarrow> scan_s n s = None"
  using wtoks_head [of s] by (auto simp: ws_tokens_def scan_s_def Let_def split: if_splits)

lemma scan_s_token:
  assumes "ws_tokens s = t # ts" "length t \<le> n"
  shows "\<exists>r. scan_s n s = Some (t, r) \<and> ws_tokens r = ts"
proof -
  define s' where "s' = dropWhile isspace s"
  define r where "r = dropWhile (\<lambda>c. \<not> isspace c) s'"
  from assms(1) wtoks_head [of s]
  have t: "t = takeWhile (\<lambda>c. \<not> isspace c) s'" "t \<noteq> []" "ws_tokens r = ts"
    by (auto simp: ws_tokens_def Let_def s'_def r_def split: if_splits)
  have "s' = t @ r" by (simp add: t(1) r_def)
  then have "drop (length t) s' = r" by simp
  moreover from t(2) assms(2) have "0 < n" by (cases t) auto
  ultimately have "scan_s n s = Some (t, r)"
    using t assms(2) by (simp add: scan_s_def Let_def s'_def [symmetric])
  with t(3) show ?thesis by blast
qed

lemma short_line_fails: "short_line line \<Longrightarrow> sscanf3 line = None"
proof -
  assume s: "short_line line"
  show ?thesis
  proof (cases "ws_tokens line")
    case Nil
    then show ?thesis by (simp add: sscanf3_def scan_s_no_token)
  next
    case (Cons a rest)
    note c1 = Cons
    show ?thesis
    proof (cases rest)
      case Nil
      with c1 s have la: "length a \<le> 15" by (simp add: short_line_def)
      from scan_s_token [of line a rest 15] c1 la Nil
      obtain r where r: "scan_s 15 line = Some (a, r)" "ws_tokens r = []" by auto
      then show ?thesis by (simp add: sscanf3_def scan_s_no_token)
    next
      case (Cons b rest')
      with c1 s have l: "length a \<le> 15" "length b \<le> 1023" "rest' = []"
        by (auto simp: short_line_def split: list.splits)
      from scan_s_token [of line a rest 15] c1 l(1)
      obtain r1 where r1: "scan_s 15 line = Some (a, r1)" "ws_tokens r1 = rest" by auto
      from scan_s_token [of r1 b rest' 1023] r1(2) Cons l(2)
      obtain r2 where r2: "scan_s 1023 r1 = Some (b, r2)" "ws_tokens r2 = rest'" by auto
      with r1 l(3) show ?thesis by (simp add: sscanf3_def scan_s_no_token)
    qed
  qed
qed


text \<open>
  C7 (malformed requests), as the code has it.  When the first read holds no CRLF
  before its first NUL, or its request line has fewer than three white-space separated
  tokens, the first of at most 15 bytes and the second of at most 1023,
  \<^verbatim>\<open>parse_request\<close> fails and \<^verbatim>\<open>conn_thread\<close> closes the connection without
  sending anything.
\<close>

theorem malformed_request_dropped:
  assumes "request_line (take BUFSIZE first) = None
           \<or> (\<exists>line. request_line (take BUFSIZE first) = Some line \<and> short_line line)"
  shows "parse_request (malloc_max w) (take BUFSIZE first) (drop BUFSIZE first @ later) = None
         \<and> conn_thread cfg w first later = (None, w)"
proof -
  have "parse_request (malloc_max w) (take BUFSIZE first) (drop BUFSIZE first @ later) = None"
    using assms short_line_fails
    by (auto simp: parse_request_def request_line_def Let_def split: option.splits)
  then show ?thesis by (simp add: conn_thread_def Let_def)
qed

theorem malformed_request_dropped_witness:
  "request_line (take BUFSIZE (''GET /'' @ CRLF @ CRLF)) = Some ''GET /''
   \<and> short_line ''GET /''
   \<and> parse_request (malloc_max srv_world) (take BUFSIZE (''GET /'' @ CRLF @ CRLF))
        (drop BUFSIZE (''GET /'' @ CRLF @ CRLF) @ []) = None
   \<and> conn_thread srv_config srv_world (''GET /'' @ CRLF @ CRLF) [] = (None, srv_world)"
proof -
  have l: "request_line (take BUFSIZE (''GET /'' @ CRLF @ CRLF)) = Some ''GET /''"
    by (simp add: eval_defs)
  have s: "short_line ''GET /''"
    by (simp add: short_line_def ws_tokens_def isspace_def)
  from l s have h: "request_line (take BUFSIZE (''GET /'' @ CRLF @ CRLF)) = None
           \<or> (\<exists>line. request_line (take BUFSIZE (''GET /'' @ CRLF @ CRLF)) = Some line
                 \<and> short_line line)"
    by blast
  from malformed_request_dropped [OF h, of srv_world "[]" srv_config] l s
  show ?thesis by blast
qed

text \<open>
  The claim as stated fails: a request line of four tokens is parsed, the fourth being
  ignored, and answered; and a line of two tokens whose first is longer than 15 bytes
  is parsed as three fields.
\<close>

theorem malformed_request_counterexample:
  "request_line (''GET / HTTP/1.1 extra'' @ CRLF @ CRLF) = Some ''GET / HTTP/1.1 extra''
   \<and> ws_tokens ''GET / HTTP/1.1 extra'' = [''GET'', ''/'', ''HTTP/1.1'', ''extra'']
   \<and> parse_request (malloc_max srv_world) (''GET / HTTP/1.1 extra'' @ CRLF @ CRLF) []
       = Some \<lparr>meth = ''GET'', uri = ''/'', proto = ''HTTP/1.1'', headers = [], body = None\<rparr>
   \<and> conn_thread srv_config srv_world (''GET / HTTP/1.1 extra'' @ CRLF @ CRLF) []
       = (Some (serve_index srv_config), srv_world)
   \<and> ws_tokens ''AAAAAAAAAAAAAAAAAAAA /'' = [''AAAAAAAAAAAAAAAAAAAA'', ''/'']
   \<and> parse_request (malloc_max srv_world) (''AAAAAAAAAAAAAAAAAAAA /'' @ CRLF @ CRLF) []
       = Some \<lparr>meth = ''AAAAAAAAAAAAAAA'', uri = ''AAAAA'', proto = ''/'', headers = [],
                body = None\<rparr>"
  by (simp add: eval_defs)

section \<open>A run of the server\<close>

text \<open>
  The example run of the specification, with root \<^verbatim>\<open>/srv\<close>: create \<^verbatim>\<open>/a/b/c\<close>, upload
  \<^verbatim>\<open>hello\<close> to \<^verbatim>\<open>/a/b/c/f.txt\<close>, list the directory, download the file, delete it,
  and fail to download it again.
\<close>

lemma scenario_mkdir:
  "conn_thread srv_config (scenario_world 1)
      (''POST /api/mkdir?path=/a/b/c HTTP/1.1'' @ CRLF @ ''Host: x'' @ CRLF @ CRLF) []
     = (Some (reply 201 ''Created'' (Some ''text/plain'') None ''Created''), scenario_world 4)"
  by (simp add: eval_defs)

lemma scenario_upload:
  "conn_thread srv_config (scenario_world 4)
      (''PUT /api/upload?path=/a/b/c/f.txt HTTP/1.1'' @ CRLF @ ''Content-Length: 5'' @ CRLF @ CRLF
         @ ''hello'') []
     = (Some (reply 201 ''Created'' (Some ''text/plain'') None ''Created''), scenario_world 5)"
  by (simp add: eval_defs)

lemma scenario_list:
  "conn_thread srv_config (scenario_world 5)
      (''GET /api/list?path=/a/b/c HTTP/1.1'' @ CRLF @ ''Host: x'' @ CRLF @ CRLF) []
     = (Some (reply 200 ''OK'' (Some ''application/json; charset=utf-8'') None
          (''[{'' @ DQ @ ''name'' @ DQ @ '':'' @ DQ @ ''f.txt'' @ DQ
           @ '','' @ DQ @ ''path'' @ DQ @ '':'' @ DQ @ ''/a/b/c/f.txt'' @ DQ
           @ '','' @ DQ @ ''type'' @ DQ @ '':'' @ DQ @ ''file'' @ DQ
           @ '','' @ DQ @ ''size'' @ DQ @ '':5}]'')), scenario_world 5)"
  by (simp add: eval_defs)

lemma scenario_download:
  "conn_thread srv_config (scenario_world 5)
      (''GET /api/download?path=/a/b/c/f.txt HTTP/1.1'' @ CRLF @ ''Host: x'' @ CRLF @ CRLF) []
     = (Some (reply 200 ''OK'' (Some ''text/plain'') None ''hello''), scenario_world 5)"
  by (simp add: eval_defs)

lemma scenario_delete:
  "conn_thread srv_config (scenario_world 5)
      (''POST /api/delete?path=/a/b/c/f.txt HTTP/1.1'' @ CRLF @ ''Host: x'' @ CRLF @ CRLF) []
     = (Some \<lparr>resp_head = send_headers 204 ''No Content'' None 0 None, resp_body = []\<rparr>,
        scenario_world 4)"
  by (simp add: eval_defs)

lemma scenario_download_deleted:
  "conn_thread srv_config (scenario_world 4)
      (''GET /api/download?path=/a/b/c/f.txt HTTP/1.1'' @ CRLF @ ''Host: x'' @ CRLF @ CRLF) []
     = (Some (reply 404 ''Not Found'' (Some ''text/plain; charset=utf-8'') None ''Not found''),
        scenario_world 4)"
  by (simp add: eval_defs)


end
